theory Spec2Isabelle
  imports Main "HOL-Library.Product_Lexorder"
begin

section \<open>The token-list validator of src/validate.ts\<close>

text \<open>
  The validator is one async function, \<^verbatim>\<open>validateTokenList\<close>, that reads two parsed JSON
  documents (the candidate and, when git history has one, the previous list), runs a fixed
  sequence of checks and, at the first check that fails, prints one line with
  \<^verbatim>\<open>console.error\<close> and calls \<^verbatim>\<open>process.exit(1)\<close>.

  Modelling choices:
  \<^item> JSON numbers that the documents hold (\<^verbatim>\<open>chainId\<close>, \<^verbatim>\<open>decimals\<close>, the version
    parts) are integers, as the data model has them; a template literal renders such a
    number in plain decimal notation.
  \<^item> Strings are \<^typ>\<open>string\<close>. \<^verbatim>\<open>String.prototype.toLowerCase\<close> belongs to the
    runtime and is a parameter, \<open>toLowerCase\<close>, of every function that calls it: nothing
    is assumed about which characters it changes.
  \<^item> A \<^verbatim>\<open>Date\<close> is its time value in milliseconds, \<open>None\<close> for an invalid date
    (the time value NaN). The date parser of the runtime, the clock, the compiled JSON
    schema (file \<^verbatim>\<open>tokenlist.schema.json\<close>) and the network are parameters.
  \<^item> The process is a record of what the run printed, which URIs it requested and
    whether \<^verbatim>\<open>process.exit\<close> was called.
\<close>

subsection \<open>Data model\<close>

record Token =
  name :: string
  chainId :: int
  symbol :: string
  decimals :: int
  address :: string
  logoURI :: string

record Version =
  major :: int
  minor :: int
  patch :: int

record TokenList =
  list_name :: string
  version :: Version
  list_keywords :: "string list"
  list_logoURI :: string
  timestamp :: string
  tokens :: "Token list"

definition ALLOWED_CHAIN_IDS :: "int list" where
  "ALLOWED_CHAIN_IDS = [89898, 2786]"

definition REQUIRED_KEYWORDS :: "string list" where
  "REQUIRED_KEYWORDS = [''apertum'', ''tokens'', ''trusted'']"

definition REQUIRED_LIST_LOGO_URI :: string where
  "REQUIRED_LIST_LOGO_URI = ''https://assets.apertum.io/assets/apertum-logo.svg''"

subsection \<open>What a run prints\<close>

text \<open>One constructor for each \<^verbatim>\<open>console.error\<close> call of the function, in source order,
  with the values the message interpolates.\<close>

datatype message =
    SchemaFailed
  | ListNameChanged
  | KeywordsChanged
  | ListLogoChanged
  | TimestampInFuture
  | TimestampOlder
  | VersionNotIncremented
  | DuplicateAddress string int
  | DuplicateName int string string string
  | DuplicateSymbol int string string string
  | DuplicateLogoURI int string string string
  | TokenModified string string
  | InvalidChainId int string
  | InvalidLogoURI string string
  | LogoRequestFailed string string

text \<open>The violation kinds of the specification, and the kind each message belongs to.\<close>

datatype violation_kind =
    SchemaViolation
  | ImmutableFieldViolation
  | TimestampViolation
  | VersionViolation
  | DuplicateViolation
  | ImmutableRecordViolation
  | ChainIdViolation
  | UnreachableLogoViolation

fun kind_of :: "message \<Rightarrow> violation_kind" where
  "kind_of SchemaFailed = SchemaViolation"
| "kind_of ListNameChanged = ImmutableFieldViolation"
| "kind_of KeywordsChanged = ImmutableFieldViolation"
| "kind_of ListLogoChanged = ImmutableFieldViolation"
| "kind_of TimestampInFuture = TimestampViolation"
| "kind_of TimestampOlder = TimestampViolation"
| "kind_of VersionNotIncremented = VersionViolation"
| "kind_of (DuplicateAddress a c) = DuplicateViolation"
| "kind_of (DuplicateName c n s s') = DuplicateViolation"
| "kind_of (DuplicateSymbol c s n n') = DuplicateViolation"
| "kind_of (DuplicateLogoURI c u s s') = DuplicateViolation"
| "kind_of (TokenModified s a) = ImmutableRecordViolation"
| "kind_of (InvalidChainId c s) = ChainIdViolation"
| "kind_of (InvalidLogoURI s u) = UnreachableLogoViolation"
| "kind_of (LogoRequestFailed s u) = UnreachableLogoViolation"

subsection \<open>Strings: template literals\<close>

definition digit_char :: "nat \<Rightarrow> char" where
  "digit_char d = ''0123456789'' ! d"

fun digits :: "nat \<Rightarrow> string" where
  "digits n = (if n < 10 then [digit_char n] else digits (n div 10) @ [digit_char (n mod 10)])"

text \<open>\<^verbatim>\<open>`${n}`\<close> for an integer \<open>n\<close>.\<close>

definition number_to_string :: "int \<Rightarrow> string" where
  "number_to_string i = (if i < 0 then CHR ''-'' # digits (nat (- i)) else digits (nat i))"

text \<open>\<^verbatim>\<open>`${token.chainId}-${s}`\<close>, the key of every \<^verbatim>\<open>Map\<close> of the function. Three of
  the four keys lower-case their string with the runtime's \<open>toLowerCase\<close>.\<close>

definition chain_key :: "int \<Rightarrow> string \<Rightarrow> string" where
  "chain_key c s = number_to_string c @ ''-'' @ s"

definition address_key :: "(string \<Rightarrow> string) \<Rightarrow> Token \<Rightarrow> string" where
  "address_key toLowerCase t = chain_key (chainId t) (toLowerCase (address t))"

definition name_key :: "(string \<Rightarrow> string) \<Rightarrow> Token \<Rightarrow> string" where
  "name_key toLowerCase t = chain_key (chainId t) (toLowerCase (name t))"

definition symbol_key :: "(string \<Rightarrow> string) \<Rightarrow> Token \<Rightarrow> string" where
  "symbol_key toLowerCase t = chain_key (chainId t) (toLowerCase (symbol t))"

definition logoURI_key :: "Token \<Rightarrow> string" where
  "logoURI_key t = chain_key (chainId t) (logoURI t)"

subsection \<open>The checks, in source order\<close>

text \<open>Every check yields the message of its \<^verbatim>\<open>console.error\<close> when it fails and
  \<open>None\<close> when the run goes on.\<close>

definition schema_check :: "(TokenList \<Rightarrow> bool) \<Rightarrow> TokenList \<Rightarrow> message option" where
  "schema_check validate tokenList = (if \<not> validate tokenList then Some SchemaFailed else None)"

definition name_check :: "TokenList \<Rightarrow> message option" where
  "name_check tokenList =
     (if list_name tokenList \<noteq> ''Apertum Token List'' then Some ListNameChanged else None)"

definition keywords_check :: "TokenList \<Rightarrow> message option" where
  "keywords_check tokenList =
     (if \<not> list_all (\<lambda>keyword. keyword \<in> set (list_keywords tokenList)) REQUIRED_KEYWORDS
      then Some KeywordsChanged else None)"

definition logo_check :: "TokenList \<Rightarrow> message option" where
  "logo_check tokenList =
     (if list_logoURI tokenList \<noteq> REQUIRED_LIST_LOGO_URI then Some ListLogoChanged else None)"

text \<open>\<^verbatim>\<open>a > b\<close> and \<^verbatim>\<open>a < b\<close> on two dates compare the time values; a comparison
  with NaN is false.\<close>

fun date_gt :: "int option \<Rightarrow> int option \<Rightarrow> bool" where
  "date_gt (Some a) (Some b) = (a > b)"
| "date_gt _ _ = False"

fun date_lt :: "int option \<Rightarrow> int option \<Rightarrow> bool" where
  "date_lt (Some a) (Some b) = (a < b)"
| "date_lt _ _ = False"

text \<open>\<open>Date\<close> is \<^verbatim>\<open>new Date(string)\<close>; \<open>now\<close> is the time value of \<^verbatim>\<open>new Date()\<close>,
  which is always a valid date.\<close>

definition future_check :: "(string \<Rightarrow> int option) \<Rightarrow> int \<Rightarrow> TokenList \<Rightarrow> message option" where
  "future_check Date now tokenList =
     (let currentTimestamp = Date (timestamp tokenList) in
      if date_gt currentTimestamp (Some now) then Some TimestampInFuture else None)"

definition regression_check ::
  "(string \<Rightarrow> int option) \<Rightarrow> TokenList \<Rightarrow> TokenList option \<Rightarrow> message option" where
  "regression_check Date tokenList previousTokenList =
     (case previousTokenList of
        None \<Rightarrow> None
      | Some previous \<Rightarrow>
          (let currentTimestamp = Date (timestamp tokenList);
               previousTimestamp = Date (timestamp previous) in
           if date_lt currentTimestamp previousTimestamp then Some TimestampOlder else None))"

definition version_check :: "TokenList \<Rightarrow> TokenList option \<Rightarrow> message option" where
  "version_check tokenList previousTokenList =
     (case previousTokenList of
        None \<Rightarrow> None
      | Some previous \<Rightarrow>
          (let prevVersion = version previous; newVersion = version tokenList in
           if major newVersion < major prevVersion \<or>
              (major newVersion = major prevVersion \<and> minor newVersion < minor prevVersion) \<or>
              (major newVersion = major prevVersion \<and> minor newVersion = minor prevVersion \<and>
               patch newVersion \<le> patch prevVersion)
           then Some VersionNotIncremented else None))"

text \<open>The four duplicate loops share one shape: a \<^verbatim>\<open>Map\<close> from key to the symbol (or
  name) of the record that set it, tested with \<^verbatim>\<open>has\<close> before each \<^verbatim>\<open>set\<close>.\<close>

fun duplicate_loop ::
  "(Token \<Rightarrow> string) \<Rightarrow> (Token \<Rightarrow> string) \<Rightarrow> (Token \<Rightarrow> string \<Rightarrow> message) \<Rightarrow>
   (string \<rightharpoonup> string) \<Rightarrow> Token list \<Rightarrow> message option" where
  "duplicate_loop key val report seen [] = None"
| "duplicate_loop key val report seen (token # rest) =
     (case seen (key token) of
        Some other \<Rightarrow> Some (report token other)
      | None \<Rightarrow> duplicate_loop key val report (seen(key token \<mapsto> val token)) rest)"

definition address_duplicates :: "(string \<Rightarrow> string) \<Rightarrow> TokenList \<Rightarrow> message option" where
  "address_duplicates toLowerCase tokenList =
     duplicate_loop (address_key toLowerCase) symbol
       (\<lambda>token other. DuplicateAddress (address token) (chainId token))
       Map.empty (tokens tokenList)"

definition name_duplicates :: "(string \<Rightarrow> string) \<Rightarrow> TokenList \<Rightarrow> message option" where
  "name_duplicates toLowerCase tokenList =
     duplicate_loop (name_key toLowerCase) symbol
       (\<lambda>token other. DuplicateName (chainId token) (name token) (symbol token) other)
       Map.empty (tokens tokenList)"

definition symbol_duplicates :: "(string \<Rightarrow> string) \<Rightarrow> TokenList \<Rightarrow> message option" where
  "symbol_duplicates toLowerCase tokenList =
     duplicate_loop (symbol_key toLowerCase) name
       (\<lambda>token other. DuplicateSymbol (chainId token) (symbol token) (name token) other)
       Map.empty (tokens tokenList)"

definition logoURI_duplicates :: "TokenList \<Rightarrow> message option" where
  "logoURI_duplicates tokenList =
     duplicate_loop logoURI_key symbol
       (\<lambda>token other. DuplicateLogoURI (chainId token) (logoURI token) (symbol token) other)
       Map.empty (tokens tokenList)"

text \<open>\<^verbatim>\<open>new Map(previousTokenList.tokens.map(token => [key, token]))\<close>: the entries are
  inserted in order, so a later record replaces an earlier one with the same key.\<close>

definition previousTokens :: "(string \<Rightarrow> string) \<Rightarrow> TokenList \<Rightarrow> (string \<rightharpoonup> Token)" where
  "previousTokens toLowerCase previous =
     fold (\<lambda>token m. m(address_key toLowerCase token \<mapsto> token)) (tokens previous) Map.empty"

definition modified :: "Token \<Rightarrow> Token \<Rightarrow> bool" where
  "modified token previousToken \<longleftrightarrow>
     name token \<noteq> name previousToken \<or>
     symbol token \<noteq> symbol previousToken \<or>
     decimals token \<noteq> decimals previousToken \<or>
     logoURI token \<noteq> logoURI previousToken"

fun modified_loop ::
  "(string \<Rightarrow> string) \<Rightarrow> (string \<rightharpoonup> Token) \<Rightarrow> Token list \<Rightarrow> message option" where
  "modified_loop toLowerCase prev [] = None"
| "modified_loop toLowerCase prev (token # rest) =
     (case prev (address_key toLowerCase token) of
        Some previousToken \<Rightarrow>
          if modified token previousToken
          then Some (TokenModified (symbol token) (address token))
          else modified_loop toLowerCase prev rest
      | None \<Rightarrow> modified_loop toLowerCase prev rest)"

definition existing_tokens_check ::
  "(string \<Rightarrow> string) \<Rightarrow> TokenList \<Rightarrow> TokenList option \<Rightarrow> message option" where
  "existing_tokens_check toLowerCase tokenList previousTokenList =
     (case previousTokenList of
        None \<Rightarrow> None
      | Some previous \<Rightarrow>
          modified_loop toLowerCase (previousTokens toLowerCase previous) (tokens tokenList))"

fun chain_id_loop :: "Token list \<Rightarrow> message option" where
  "chain_id_loop [] = None"
| "chain_id_loop (token # rest) =
     (if chainId token \<notin> set ALLOWED_CHAIN_IDS
      then Some (InvalidChainId (chainId token) (symbol token))
      else chain_id_loop rest)"

definition chain_ids_check :: "TokenList \<Rightarrow> message option" where
  "chain_ids_check tokenList = chain_id_loop (tokens tokenList)"

subsection \<open>Stages\<close>

text \<open>The run stops at the first check that fails, so consecutive checks group into
  stages that report the first message among theirs: the three fixed list fields, the two
  timestamp comparisons, the four duplicate loops.\<close>

fun first_failure :: "message option list \<Rightarrow> message option" where
  "first_failure [] = None"
| "first_failure (None # rs) = first_failure rs"
| "first_failure (Some m # rs) = Some m"

definition fixed_fields_check :: "TokenList \<Rightarrow> message option" where
  "fixed_fields_check tokenList =
     first_failure [name_check tokenList, keywords_check tokenList, logo_check tokenList]"

definition timestamp_check ::
  "(string \<Rightarrow> int option) \<Rightarrow> int \<Rightarrow> TokenList \<Rightarrow> TokenList option \<Rightarrow> message option" where
  "timestamp_check Date now tokenList previousTokenList =
     first_failure [future_check Date now tokenList,
                    regression_check Date tokenList previousTokenList]"

definition uniqueness_check :: "(string \<Rightarrow> string) \<Rightarrow> TokenList \<Rightarrow> message option" where
  "uniqueness_check toLowerCase tokenList =
     first_failure [address_duplicates toLowerCase tokenList, name_duplicates toLowerCase tokenList,
                    symbol_duplicates toLowerCase tokenList, logoURI_duplicates tokenList]"

subsection \<open>The process and the run\<close>

datatype line = Error message | Passed

record process =
  console :: "line list"
  requests :: "string list"
  exit_code :: "int option"

definition start :: process where
  "start = \<lparr>console = [], requests = [], exit_code = None\<rparr>"

text \<open>\<^verbatim>\<open>console.error(...); process.exit(1);\<close>\<close>

definition fail :: "message \<Rightarrow> process \<Rightarrow> process" where
  "fail m s = s\<lparr>console := console s @ [Error m], exit_code := Some 1\<rparr>"

text \<open>One check of the sequence: nothing runs in a process that has exited.\<close>

definition check :: "message option \<Rightarrow> process \<Rightarrow> process" where
  "check r s =
     (if exit_code s \<noteq> None then s else case r of None \<Rightarrow> s | Some m \<Rightarrow> fail m s)"

text \<open>The answer to \<^verbatim>\<open>axios.head(uri)\<close>: the promise resolves with a status or rejects.\<close>

datatype response = Status int | Rejected

fun logo_loop :: "(string \<Rightarrow> response) \<Rightarrow> Token list \<Rightarrow> process \<Rightarrow> process" where
  "logo_loop head [] s = s"
| "logo_loop head (token # rest) s =
     (if exit_code s \<noteq> None then s
      else
        let s' = s\<lparr>requests := requests s @ [logoURI token]\<rparr> in
        case head (logoURI token) of
          Status n \<Rightarrow>
            if n \<noteq> 200 then fail (InvalidLogoURI (symbol token) (logoURI token)) s'
            else logo_loop head rest s'
        | Rejected \<Rightarrow> fail (LogoRequestFailed (symbol token) (logoURI token)) s')"

definition log_passed :: "process \<Rightarrow> process" where
  "log_passed s = (if exit_code s \<noteq> None then s else s\<lparr>console := console s @ [Passed]\<rparr>)"

text \<open>The checks before the logo requests, in the order of the source.\<close>

definition deterministic_checks ::
  "(string \<Rightarrow> string) \<Rightarrow> (TokenList \<Rightarrow> bool) \<Rightarrow> (string \<Rightarrow> int option) \<Rightarrow> int \<Rightarrow>
   TokenList \<Rightarrow> TokenList option \<Rightarrow> message option list" where
  "deterministic_checks toLowerCase validate Date now tokenList previousTokenList =
     [schema_check validate tokenList,
      fixed_fields_check tokenList,
      timestamp_check Date now tokenList previousTokenList,
      version_check tokenList previousTokenList,
      uniqueness_check toLowerCase tokenList,
      existing_tokens_check toLowerCase tokenList previousTokenList,
      chain_ids_check tokenList]"

definition deterministic_part ::
  "(string \<Rightarrow> string) \<Rightarrow> (TokenList \<Rightarrow> bool) \<Rightarrow> (string \<Rightarrow> int option) \<Rightarrow> int \<Rightarrow>
   TokenList \<Rightarrow> TokenList option \<Rightarrow> process" where
  "deterministic_part toLowerCase validate Date now tokenList previousTokenList =
     fold check
       (deterministic_checks toLowerCase validate Date now tokenList previousTokenList) start"

definition validateTokenList ::
  "(string \<Rightarrow> string) \<Rightarrow> (TokenList \<Rightarrow> bool) \<Rightarrow> (string \<Rightarrow> int option) \<Rightarrow> int \<Rightarrow>
   (string \<Rightarrow> response) \<Rightarrow> TokenList \<Rightarrow> TokenList option \<Rightarrow> process" where
  "validateTokenList toLowerCase validate Date now head tokenList previousTokenList =
     log_passed
       (logo_loop head (tokens tokenList)
          (deterministic_part toLowerCase validate Date now tokenList previousTokenList))"

text \<open>The same checks one by one, stages taken apart: the thirteen places of the source
  that can print an error before the logo loop, in the order in which the source runs
  them.\<close>

definition source_checks ::
  "(string \<Rightarrow> string) \<Rightarrow> (TokenList \<Rightarrow> bool) \<Rightarrow> (string \<Rightarrow> int option) \<Rightarrow> int \<Rightarrow>
   TokenList \<Rightarrow> TokenList option \<Rightarrow> message option list" where
  "source_checks toLowerCase validate Date now tokenList previousTokenList =
     [schema_check validate tokenList,
      name_check tokenList,
      keywords_check tokenList,
      logo_check tokenList,
      future_check Date now tokenList,
      regression_check Date tokenList previousTokenList,
      version_check tokenList previousTokenList,
      address_duplicates toLowerCase tokenList,
      name_duplicates toLowerCase tokenList,
      symbol_duplicates toLowerCase tokenList,
      logoURI_duplicates tokenList,
      existing_tokens_check toLowerCase tokenList previousTokenList,
      chain_ids_check tokenList]"

subsection \<open>The identity key of a record\<close>

text \<open>The specification matches records across versions by the pair of the chain id and
  the lower-cased address. The source builds the string \<^verbatim>\<open>`${chainId}-${address}`\<close>
  instead; lemma \<open>address_key_eq_iff\<close> below shows that the two agree.\<close>

definition identity_key :: "(string \<Rightarrow> string) \<Rightarrow> Token \<Rightarrow> int \<times> string" where
  "identity_key toLowerCase t = (chainId t, toLowerCase (address t))"

subsection \<open>Example documents\<close>

definition list_at :: "int \<Rightarrow> int \<Rightarrow> int \<Rightarrow> string \<Rightarrow> Token list \<Rightarrow> TokenList" where
  "list_at ma mi pa ts toks =
     \<lparr>list_name = ''Apertum Token List'',
      version = \<lparr>major = ma, minor = mi, patch = pa\<rparr>,
      list_keywords = [''apertum'', ''tokens'', ''trusted''],
      list_logoURI = ''https://assets.apertum.io/assets/apertum-logo.svg'',
      timestamp = ts,
      tokens = toks\<rparr>"

definition foo_token :: Token where
  "foo_token = \<lparr>name = ''Foo'', chainId = 89898, symbol = ''FOO'', decimals = 18,
                 address = ''0xAAA'', logoURI = ''https://assets.apertum.io/foo.svg''\<rparr>"

definition bar_token :: Token where
  "bar_token = \<lparr>name = ''Bar'', chainId = 89898, symbol = ''BAR'', decimals = 6,
                 address = ''0xaaa'', logoURI = ''https://assets.apertum.io/bar.svg''\<rparr>"

definition feb18 :: TokenList where
  "feb18 = list_at 1 0 0 ''2024-02-18T12:00:00Z'' [foo_token]"

definition undated :: TokenList where
  "undated = list_at 1 0 1 ''yesterday'' [foo_token]"

text \<open>Parameters for the example runs: a schema that accepts every document, the time
  values of the two timestamps the examples use (any other string is an invalid date),
  two networks, one answering 200 and one answering 204 to every request, and a case
  mapping that lower-cases the letters A to Z, as the runtime does on the strings of the
  examples, which hold no other upper-case letter.\<close>

definition upper_letters :: string where
  "upper_letters = ''ABCDEFGHIJKLMNOPQRSTUVWXYZ''"

definition lower_letters :: string where
  "lower_letters = ''abcdefghijklmnopqrstuvwxyz''"

definition example_lower_char :: "char \<Rightarrow> char" where
  "example_lower_char c = (case map_of (zip upper_letters lower_letters) c of Some l \<Rightarrow> l | None \<Rightarrow> c)"

definition example_toLowerCase :: "string \<Rightarrow> string" where
  "example_toLowerCase s = map example_lower_char s"

definition any_schema :: "TokenList \<Rightarrow> bool" where
  "any_schema tokenList = True"

definition example_Date :: "string \<Rightarrow> int option" where
  "example_Date s =
     (if s = ''2024-02-18T12:00:00Z'' then Some 1708257600000
      else if s = ''2024-02-19T12:00:00Z'' then Some 1708344000000
      else None)"

definition all_reachable :: "string \<Rightarrow> response" where
  "all_reachable uri = Status 200"

definition no_content :: "string \<Rightarrow> response" where
  "no_content uri = Status 204"

section \<open>Properties\<close>

subsection \<open>Evaluating the model\<close>

declare digits.simps [simp del]

lemmas check_defs =
  schema_check_def fixed_fields_check_def name_check_def keywords_check_def logo_check_def
  timestamp_check_def future_check_def regression_check_def version_check_def
  uniqueness_check_def address_duplicates_def name_duplicates_def symbol_duplicates_def
  logoURI_duplicates_def existing_tokens_check_def previousTokens_def modified_def
  chain_ids_check_def ALLOWED_CHAIN_IDS_def REQUIRED_KEYWORDS_def REQUIRED_LIST_LOGO_URI_def
  address_key_def name_key_def symbol_key_def logoURI_key_def chain_key_def
  number_to_string_def digit_char_def example_toLowerCase_def example_lower_char_def upper_letters_def
  lower_letters_def digits.simps

lemmas run_defs =
  validateTokenList_def deterministic_part_def deterministic_checks_def check_def fail_def
  log_passed_def start_def

lemmas example_defs =
  list_at_def foo_token_def bar_token_def any_schema_def example_Date_def all_reachable_def
  no_content_def feb18_def undated_def

subsection \<open>The first failure decides the run\<close>

lemma first_failure_None_iff: "first_failure rs = None \<longleftrightarrow> (\<forall>r\<in>set rs. r = None)"
  by (induction rs rule: first_failure.induct) auto

lemma first_failure_Some: "first_failure rs = Some m \<Longrightarrow> Some m \<in> set rs"
  by (induction rs rule: first_failure.induct) auto

lemma check_exited: "exit_code s \<noteq> None \<Longrightarrow> check r s = s"
  by (simp add: check_def)

lemma fold_check_exited: "exit_code s \<noteq> None \<Longrightarrow> fold check rs s = s"
  by (induction rs) (simp_all add: check_exited)

lemma exit_code_fail: "exit_code (fail m s) = Some 1"
  by (simp add: fail_def)

lemma check_None: "check None s = s"
  by (simp add: check_def)

lemma check_Some: "exit_code s = None \<Longrightarrow> check (Some m) s = fail m s"
  by (simp add: check_def)

lemma fold_check:
  "exit_code s = None \<Longrightarrow>
     fold check rs s = (case first_failure rs of None \<Rightarrow> s | Some m \<Rightarrow> fail m s)"
proof (induction rs rule: first_failure.induct)
  case 1
  then show ?case by simp
next
  case (2 rs)
  then show ?case by (simp add: check_None)
next
  case (3 m rs)
  then show ?case by (simp add: check_Some fold_check_exited exit_code_fail)
qed

lemma deterministic_part_eq:
  "deterministic_part L V D now c prev =
     (case first_failure (deterministic_checks L V D now c prev) of
        None \<Rightarrow> start | Some m \<Rightarrow> fail m start)"
  unfolding deterministic_part_def by (rule fold_check) (simp add: start_def)

lemma logo_loop_exited: "exit_code s \<noteq> None \<Longrightarrow> logo_loop H ts s = s"
  by (cases ts) simp_all

lemma logo_loop_cases:
  "exit_code s = None \<Longrightarrow>
     (exit_code (logo_loop H ts s) = None \<and>
      console (logo_loop H ts s) = console s \<and>
      requests (logo_loop H ts s) = requests s @ map logoURI ts \<and>
      (\<forall>t\<in>set ts. H (logoURI t) = Status 200)) \<or>
     (exit_code (logo_loop H ts s) = Some 1 \<and>
      (\<exists>m. console (logo_loop H ts s) = console s @ [Error m] \<and>
           kind_of m = UnreachableLogoViolation) \<and>
      (\<exists>us. us \<noteq> [] \<and> requests (logo_loop H ts s) = requests s @ us) \<and>
      (\<exists>t\<in>set ts. H (logoURI t) \<noteq> Status 200))"
proof (induction ts arbitrary: s)
  case Nil
  then show ?case by simp
next
  case (Cons t ts)
  let ?s' = "s\<lparr>requests := requests s @ [logoURI t]\<rparr>"
  show ?case
  proof (cases "H (logoURI t)")
    case Rejected
    with Cons.prems show ?thesis by (simp add: fail_def)
  next
    case (Status n)
    show ?thesis
    proof (cases "n = 200")
      case False
      with Status Cons.prems show ?thesis by (simp add: fail_def)
    next
      case True
      have e: "exit_code ?s' = None" using Cons.prems by simp
      have step: "logo_loop H (t # ts) s = logo_loop H ts ?s'"
        using Status True Cons.prems by simp
      from Cons.IH [OF e] show ?thesis
        unfolding step using Status True by auto
    qed
  qed
qed

lemma run_failed:
  "first_failure (deterministic_checks L V D now c prev) = Some m \<Longrightarrow>
     validateTokenList L V D now H c prev = fail m start"
  by (simp add: validateTokenList_def deterministic_part_eq logo_loop_exited exit_code_fail
                log_passed_def)

lemma run_passed:
  "first_failure (deterministic_checks L V D now c prev) = None \<Longrightarrow>
     validateTokenList L V D now H c prev = log_passed (logo_loop H (tokens c) start)"
  by (simp add: validateTokenList_def deterministic_part_eq)

lemma first_failure_Cons:
  "first_failure (r # rs) = (case r of None \<Rightarrow> first_failure rs | Some m \<Rightarrow> Some m)"
  by (cases r) simp_all

lemma stages_are_source_checks:
  "first_failure (deterministic_checks L V D now c prev) =
   first_failure (source_checks L V D now c prev)"
  by (simp add: deterministic_checks_def source_checks_def fixed_fields_check_def
                timestamp_check_def uniqueness_check_def first_failure_Cons
           split: option.splits)

lemma first_failure_Some_iff:
  "first_failure rs = Some m \<longleftrightarrow>
     (\<exists>as bs. rs = as @ Some m # bs \<and> (\<forall>r\<in>set as. r = None))"
proof (induction rs rule: first_failure.induct)
  case 1
  show ?case by simp
next
  case (2 rs)
  show ?case
  proof
    assume "first_failure (None # rs) = Some m"
    then obtain as bs where "rs = as @ Some m # bs" "\<forall>r\<in>set as. r = None"
      using 2 by auto
    then have "None # rs = (None # as) @ Some m # bs \<and> (\<forall>r\<in>set (None # as). r = None)"
      by simp
    then show "\<exists>as bs. None # rs = as @ Some m # bs \<and> (\<forall>r\<in>set as. r = None)" by blast
  next
    assume "\<exists>as bs. None # rs = as @ Some m # bs \<and> (\<forall>r\<in>set as. r = None)"
    then obtain as bs where e: "None # rs = as @ Some m # bs" and n: "\<forall>r\<in>set as. r = None"
      by blast
    from e obtain as' where "as = None # as'" by (cases as) auto
    with e n have "rs = as' @ Some m # bs \<and> (\<forall>r\<in>set as'. r = None)" by simp
    then show "first_failure (None # rs) = Some m" using 2 by auto
  qed
next
  case (3 m' rs)
  show ?case
  proof
    assume "first_failure (Some m' # rs) = Some m"
    then have "Some m' # rs = [] @ Some m # rs \<and> (\<forall>r\<in>set []. r = None)" by simp
    then show "\<exists>as bs. Some m' # rs = as @ Some m # bs \<and> (\<forall>r\<in>set as. r = None)" by blast
  next
    assume "\<exists>as bs. Some m' # rs = as @ Some m # bs \<and> (\<forall>r\<in>set as. r = None)"
    then obtain as bs where e: "Some m' # rs = as @ Some m # bs" and n: "\<forall>r\<in>set as. r = None"
      by blast
    have "as = []"
    proof (cases as)
      case Nil
      then show ?thesis .
    next
      case (Cons a as')
      with e n show ?thesis by auto
    qed
    with e show "first_failure (Some m' # rs) = Some m" by simp
  qed
qed

lemma logo_loop_result:
  "exit_code s = None \<Longrightarrow>
     ((\<forall>t\<in>set ts. H (logoURI t) = Status 200) \<and>
      logo_loop H ts s = s\<lparr>requests := requests s @ map logoURI ts\<rparr>) \<or>
     (\<exists>as t bs m. ts = as @ t # bs \<and> (\<forall>u\<in>set as. H (logoURI u) = Status 200) \<and>
        ((\<exists>n. H (logoURI t) = Status n \<and> n \<noteq> 200 \<and>
              m = InvalidLogoURI (symbol t) (logoURI t)) \<or>
         (H (logoURI t) = Rejected \<and> m = LogoRequestFailed (symbol t) (logoURI t))) \<and>
        logo_loop H ts s =
          s\<lparr>console := console s @ [Error m],
            requests := requests s @ map logoURI (as @ [t]),
            exit_code := Some 1\<rparr>)"
proof (induction ts arbitrary: s)
  case Nil
  then show ?case by simp
next
  case (Cons t ts)
  let ?s' = "s\<lparr>requests := requests s @ [logoURI t]\<rparr>"
  show ?case
  proof (cases "H (logoURI t) = Status 200")
    case False
    define m where "m = (case H (logoURI t) of
        Status n \<Rightarrow> InvalidLogoURI (symbol t) (logoURI t)
      | Rejected \<Rightarrow> LogoRequestFailed (symbol t) (logoURI t))"
    have msg: "(\<exists>n. H (logoURI t) = Status n \<and> n \<noteq> 200 \<and>
                   m = InvalidLogoURI (symbol t) (logoURI t)) \<or>
               (H (logoURI t) = Rejected \<and> m = LogoRequestFailed (symbol t) (logoURI t))"
      using False by (cases "H (logoURI t)") (simp_all add: m_def)
    have run: "logo_loop H (t # ts) s =
        s\<lparr>console := console s @ [Error m],
          requests := requests s @ map logoURI ([] @ [t]),
          exit_code := Some 1\<rparr>"
      using False Cons.prems by (cases "H (logoURI t)") (simp_all add: m_def fail_def)
    have "t # ts = [] @ t # ts \<and> (\<forall>u\<in>set []. H (logoURI u) = Status 200)" by simp
    with msg run show ?thesis by blast
  next
    case True
    have e: "exit_code ?s' = None" using Cons.prems by simp
    have step: "logo_loop H (t # ts) s = logo_loop H ts ?s'"
      using True Cons.prems by simp
    from Cons.IH [OF e] show ?thesis
    proof
      assume "(\<forall>t\<in>set ts. H (logoURI t) = Status 200) \<and>
        logo_loop H ts ?s' = ?s'\<lparr>requests := requests ?s' @ map logoURI ts\<rparr>"
      with True step show ?thesis by simp
    next
      assume "\<exists>as u bs m. ts = as @ u # bs \<and> (\<forall>u\<in>set as. H (logoURI u) = Status 200) \<and>
        ((\<exists>n. H (logoURI u) = Status n \<and> n \<noteq> 200 \<and>
              m = InvalidLogoURI (symbol u) (logoURI u)) \<or>
         (H (logoURI u) = Rejected \<and> m = LogoRequestFailed (symbol u) (logoURI u))) \<and>
        logo_loop H ts ?s' =
          ?s'\<lparr>console := console ?s' @ [Error m],
            requests := requests ?s' @ map logoURI (as @ [u]),
            exit_code := Some 1\<rparr>"
      then obtain as u bs m where ts: "ts = as @ u # bs"
        and ok: "\<forall>u\<in>set as. H (logoURI u) = Status 200"
        and msg: "(\<exists>n. H (logoURI u) = Status n \<and> n \<noteq> 200 \<and>
              m = InvalidLogoURI (symbol u) (logoURI u)) \<or>
         (H (logoURI u) = Rejected \<and> m = LogoRequestFailed (symbol u) (logoURI u))"
        and r: "logo_loop H ts ?s' =
          ?s'\<lparr>console := console ?s' @ [Error m],
            requests := requests ?s' @ map logoURI (as @ [u]),
            exit_code := Some 1\<rparr>"
        by blast
      have 1: "t # ts = (t # as) @ u # bs" using ts by simp
      have 2: "\<forall>u\<in>set (t # as). H (logoURI u) = Status 200" using ok True by simp
      have 3: "logo_loop H (t # ts) s =
          s\<lparr>console := console s @ [Error m],
            requests := requests s @ map logoURI ((t # as) @ [u]),
            exit_code := Some 1\<rparr>"
        unfolding step r by simp
      from 1 2 msg 3 show ?thesis by blast
    qed
  qed
qed

subsection \<open>The kind of every message\<close>

lemma duplicate_loop_message:
  "duplicate_loop key val report seen ts = Some m \<Longrightarrow> \<exists>t other. m = report t other"
  by (induction ts arbitrary: seen) (auto split: option.splits)

lemma uniqueness_check_kind:
  "uniqueness_check L c = Some m \<Longrightarrow> kind_of m = DuplicateViolation"
proof -
  assume "uniqueness_check L c = Some m"
  then have "Some m \<in> set [address_duplicates L c, name_duplicates L c,
                             symbol_duplicates L c, logoURI_duplicates c]"
    unfolding uniqueness_check_def by (rule first_failure_Some)
  then consider "address_duplicates L c = Some m" | "name_duplicates L c = Some m"
    | "symbol_duplicates L c = Some m" | "logoURI_duplicates c = Some m"
    by auto
  then show ?thesis
  proof cases
    case 1
    then show ?thesis unfolding address_duplicates_def
      by (auto dest: duplicate_loop_message)
  next
    case 2
    then show ?thesis unfolding name_duplicates_def
      by (auto dest: duplicate_loop_message)
  next
    case 3
    then show ?thesis unfolding symbol_duplicates_def
      by (auto dest: duplicate_loop_message)
  next
    case 4
    then show ?thesis unfolding logoURI_duplicates_def
      by (auto dest: duplicate_loop_message)
  qed
qed

lemma schema_check_kind: "schema_check V c = Some m \<Longrightarrow> kind_of m = SchemaViolation"
  by (auto simp: schema_check_def split: if_splits)

lemma fixed_fields_check_kind:
  "fixed_fields_check c = Some m \<Longrightarrow> kind_of m = ImmutableFieldViolation"
  by (auto simp: fixed_fields_check_def name_check_def keywords_check_def logo_check_def
           split: if_splits)

lemma timestamp_check_message:
  "timestamp_check D now c prev = Some m \<Longrightarrow>
     m = TimestampInFuture \<or> (m = TimestampOlder \<and> prev \<noteq> None)"
  by (auto simp: timestamp_check_def future_check_def regression_check_def Let_def
           split: if_splits option.splits)

lemma version_check_message:
  "version_check c prev = Some m \<Longrightarrow> m = VersionNotIncremented \<and> prev \<noteq> None"
  by (auto simp: version_check_def Let_def split: if_splits option.splits)

lemma modified_loop_message:
  "modified_loop L prev ts = Some m \<Longrightarrow> kind_of m = ImmutableRecordViolation"
  by (induction ts) (auto split: option.splits if_splits)

lemma existing_tokens_check_message:
  "existing_tokens_check L c prev = Some m \<Longrightarrow>
     kind_of m = ImmutableRecordViolation \<and> prev \<noteq> None"
  by (auto simp: existing_tokens_check_def split: option.splits dest: modified_loop_message)

lemma chain_id_loop_kind: "chain_id_loop ts = Some m \<Longrightarrow> kind_of m = ChainIdViolation"
  by (induction ts) (auto split: if_splits)

lemma deterministic_failure_cases:
  assumes "first_failure (deterministic_checks L V D now c prev) = Some m"
  shows "kind_of m = SchemaViolation \<or> kind_of m = ImmutableFieldViolation \<or>
         m = TimestampInFuture \<or> (m = TimestampOlder \<and> prev \<noteq> None) \<or>
         (m = VersionNotIncremented \<and> prev \<noteq> None) \<or>
         kind_of m = DuplicateViolation \<or>
         (kind_of m = ImmutableRecordViolation \<and> prev \<noteq> None) \<or>
         kind_of m = ChainIdViolation"
proof -
  from assms have "Some m \<in> set (deterministic_checks L V D now c prev)"
    by (rule first_failure_Some)
  then consider "schema_check V c = Some m" | "fixed_fields_check c = Some m"
    | "timestamp_check D now c prev = Some m" | "version_check c prev = Some m"
    | "uniqueness_check L c = Some m" | "existing_tokens_check L c prev = Some m"
    | "chain_ids_check c = Some m"
    unfolding deterministic_checks_def by auto
  then show ?thesis
  proof cases
    case 1 then show ?thesis by (simp add: schema_check_kind)
  next
    case 2 then show ?thesis by (simp add: fixed_fields_check_kind)
  next
    case 3 then show ?thesis using timestamp_check_message by blast
  next
    case 4 then show ?thesis using version_check_message by blast
  next
    case 5 then show ?thesis by (simp add: uniqueness_check_kind)
  next
    case 6 then show ?thesis using existing_tokens_check_message by blast
  next
    case 7 then show ?thesis by (simp add: chain_ids_check_def chain_id_loop_kind)
  qed
qed

lemma run_outcome:
  "(first_failure (deterministic_checks L V D now c prev) = None \<and>
    (\<forall>t\<in>set (tokens c). H (logoURI t) = Status 200) \<and>
    validateTokenList L V D now H c prev =
      \<lparr>console = [Passed], requests = map logoURI (tokens c), exit_code = None\<rparr>) \<or>
   (first_failure (deterministic_checks L V D now c prev) = None \<and>
    (\<exists>t\<in>set (tokens c). H (logoURI t) \<noteq> Status 200) \<and>
    exit_code (validateTokenList L V D now H c prev) = Some 1 \<and>
    requests (validateTokenList L V D now H c prev) \<noteq> [] \<and>
    (\<exists>m. console (validateTokenList L V D now H c prev) = [Error m] \<and>
         kind_of m = UnreachableLogoViolation)) \<or>
   (\<exists>m. first_failure (deterministic_checks L V D now c prev) = Some m \<and>
        validateTokenList L V D now H c prev =
          \<lparr>console = [Error m], requests = [], exit_code = Some 1\<rparr>)"
proof (cases "first_failure (deterministic_checks L V D now c prev)")
  case (Some m)
  then show ?thesis by (simp add: run_failed fail_def start_def)
next
  case None
  have e: "exit_code start = None" by (simp add: start_def)
  from logo_loop_cases [OF e, of H "tokens c"] show ?thesis
  proof
    assume a: "exit_code (logo_loop H (tokens c) start) = None \<and>
      console (logo_loop H (tokens c) start) = console start \<and>
      requests (logo_loop H (tokens c) start) = requests start @ map logoURI (tokens c) \<and>
      (\<forall>t\<in>set (tokens c). H (logoURI t) = Status 200)"
    then have "log_passed (logo_loop H (tokens c) start) =
        \<lparr>console = [Passed], requests = map logoURI (tokens c), exit_code = None\<rparr>"
      by (simp add: log_passed_def start_def)
    with a None show ?thesis by (simp add: run_passed)
  next
    assume a: "exit_code (logo_loop H (tokens c) start) = Some 1 \<and>
      (\<exists>m. console (logo_loop H (tokens c) start) = console start @ [Error m] \<and>
           kind_of m = UnreachableLogoViolation) \<and>
      (\<exists>us. us \<noteq> [] \<and> requests (logo_loop H (tokens c) start) = requests start @ us) \<and>
      (\<exists>t\<in>set (tokens c). H (logoURI t) \<noteq> Status 200)"
    then have "log_passed (logo_loop H (tokens c) start) = logo_loop H (tokens c) start"
      by (simp add: log_passed_def)
    with a None show ?thesis by (auto simp: run_passed start_def)
  qed
qed

subsection \<open>Which stage a run reports\<close>

lemma timestamp_check_kind:
  "timestamp_check D now c prev = Some m \<Longrightarrow> kind_of m = TimestampViolation"
  by (auto dest: timestamp_check_message)

lemma version_check_kind: "version_check c prev = Some m \<Longrightarrow> kind_of m = VersionViolation"
  by (auto dest: version_check_message)

lemma existing_tokens_check_kind:
  "existing_tokens_check L c prev = Some m \<Longrightarrow> kind_of m = ImmutableRecordViolation"
  by (auto dest: existing_tokens_check_message)

lemma first_failure_skip:
  "(\<And>m. r = Some m \<Longrightarrow> kind_of m \<noteq> K) \<Longrightarrow>
     (\<exists>m. first_failure (r # rs) = Some m \<and> kind_of m = K) \<longleftrightarrow>
     r = None \<and> (\<exists>m. first_failure rs = Some m \<and> kind_of m = K)"
  by (cases r) auto

lemma first_failure_hit:
  "(\<And>m. r = Some m \<Longrightarrow> kind_of m = K) \<Longrightarrow>
     (\<exists>m. first_failure (r # rs) = Some m \<and> kind_of m = K) \<longleftrightarrow>
     r \<noteq> None \<or> (\<exists>m. first_failure rs = Some m \<and> kind_of m = K)"
  by (cases r) auto

lemma chain_ids_check_kind: "chain_ids_check c = Some m \<Longrightarrow> kind_of m = ChainIdViolation"
  by (simp add: chain_ids_check_def chain_id_loop_kind)

lemmas stage_kinds =
  schema_check_kind fixed_fields_check_kind timestamp_check_kind version_check_kind
  uniqueness_check_kind existing_tokens_check_kind chain_ids_check_kind

lemma run_reports_iff:
  assumes "K \<noteq> UnreachableLogoViolation"
  shows "(\<exists>m. Error m \<in> set (console (validateTokenList L V D now H c prev)) \<and> kind_of m = K) \<longleftrightarrow>
         (\<exists>m. first_failure (deterministic_checks L V D now c prev) = Some m \<and> kind_of m = K)"
  using run_outcome [of L V D now c prev H] assms by auto

lemma reports_timestamp_iff:
  "(\<exists>m. first_failure (deterministic_checks L V D now c prev) = Some m \<and>
        kind_of m = TimestampViolation) \<longleftrightarrow>
   schema_check V c = None \<and> fixed_fields_check c = None \<and>
   timestamp_check D now c prev \<noteq> None"
  unfolding deterministic_checks_def
  by (simp add: first_failure_skip first_failure_hit stage_kinds)

lemma reports_version_iff:
  "(\<exists>m. first_failure (deterministic_checks L V D now c prev) = Some m \<and>
        kind_of m = VersionViolation) \<longleftrightarrow>
   schema_check V c = None \<and> fixed_fields_check c = None \<and>
   timestamp_check D now c prev = None \<and> version_check c prev \<noteq> None"
  unfolding deterministic_checks_def
  by (simp add: first_failure_skip first_failure_hit stage_kinds)

lemma reports_duplicate_iff:
  "(\<exists>m. first_failure (deterministic_checks L V D now c prev) = Some m \<and>
        kind_of m = DuplicateViolation) \<longleftrightarrow>
   schema_check V c = None \<and> fixed_fields_check c = None \<and>
   timestamp_check D now c prev = None \<and> version_check c prev = None \<and>
   uniqueness_check L c \<noteq> None"
  unfolding deterministic_checks_def
  by (simp add: first_failure_skip first_failure_hit stage_kinds)

lemma reports_immutable_record_iff:
  "(\<exists>m. first_failure (deterministic_checks L V D now c prev) = Some m \<and>
        kind_of m = ImmutableRecordViolation) \<longleftrightarrow>
   schema_check V c = None \<and> fixed_fields_check c = None \<and>
   timestamp_check D now c prev = None \<and> version_check c prev = None \<and>
   uniqueness_check L c = None \<and> existing_tokens_check L c prev \<noteq> None"
  unfolding deterministic_checks_def
  by (simp add: first_failure_skip first_failure_hit stage_kinds)

subsection \<open>Map keys determine the chain id and the string\<close>

lemma digit_char_inj:
  "a < 10 \<Longrightarrow> b < 10 \<Longrightarrow> digit_char a = digit_char b \<Longrightarrow> a = b"
proof -
  assume a: "a < 10" and b: "b < 10" and e: "digit_char a = digit_char b"
  have d: "distinct ''0123456789''" by simp
  have l: "length ''0123456789'' = 10" by simp
  from e have "''0123456789'' ! a = ''0123456789'' ! b" by (simp only: digit_char_def)
  with d a b l show "a = b" by (simp only: nth_eq_iff_index_eq)
qed

lemma digit_char_not_minus: "d < 10 \<Longrightarrow> digit_char d \<noteq> CHR ''-''"
proof -
  assume "d < 10"
  then have "''0123456789'' ! d \<in> set ''0123456789''"
    by (intro nth_mem) simp
  then show ?thesis unfolding digit_char_def by auto
qed

lemma digits_not_Nil: "digits n \<noteq> []"
  by (subst digits.simps) simp

lemma digits_no_minus: "CHR ''-'' \<notin> set (digits n)"
proof (induction n rule: digits.induct)
  case (1 n)
  show ?case
  proof (cases "n < 10")
    case True
    then show ?thesis using digit_char_not_minus [of n]
      by (subst digits.simps) auto
  next
    case False
    have "n mod 10 < 10" by simp
    then have "digit_char (n mod 10) \<noteq> CHR ''-''" by (rule digit_char_not_minus)
    with False 1 show ?thesis by (subst digits.simps) auto
  qed
qed

lemma digits_length_one: "length (digits n) = Suc 0 \<longleftrightarrow> n < 10"
proof (cases "n < 10")
  case True
  then show ?thesis by (subst digits.simps) simp
next
  case False
  have "length (digits (n div 10)) \<noteq> 0" using digits_not_Nil by simp
  with False show ?thesis by (subst digits.simps) simp
qed

lemma digits_inj: "digits n = digits m \<Longrightarrow> n = m"
proof (induction n arbitrary: m rule: digits.induct)
  case (1 n)
  show ?case
  proof (cases "n < 10")
    case True
    then have "length (digits n) = Suc 0" by (simp add: digits_length_one)
    then have "length (digits m) = Suc 0" using 1 (2) by simp
    then have m: "m < 10" by (simp add: digits_length_one)
    from True m 1 (2) have "digit_char n = digit_char m"
      by (simp add: digits.simps [of n] digits.simps [of m])
    with True m show ?thesis by (rule digit_char_inj)
  next
    case False
    then have "length (digits n) \<noteq> Suc 0" by (simp add: digits_length_one)
    then have "length (digits m) \<noteq> Suc 0" using 1 (2) by simp
    then have m: "\<not> m < 10" by (simp add: digits_length_one)
    from False m 1 (2) have e: "digits (n div 10) = digits (m div 10)"
      and d: "digit_char (n mod 10) = digit_char (m mod 10)"
      by (simp_all add: digits.simps [of n] digits.simps [of m])
    from 1 (1) [OF False e] have q: "n div 10 = m div 10" .
    have "n mod 10 = m mod 10" using d by (intro digit_char_inj) simp_all
    with q show ?thesis by (metis div_mult_mod_eq)
  qed
qed

lemma split_at_minus:
  assumes "xs @ CHR ''-'' # s = ys @ CHR ''-'' # s'"
    and "CHR ''-'' \<notin> set xs" and "CHR ''-'' \<notin> set ys"
  shows "xs = ys \<and> s = s'"
proof -
  have "takeWhile (\<lambda>c. c \<noteq> CHR ''-'') (xs @ CHR ''-'' # s) = xs"
    using assms(2) by (induction xs) auto
  moreover have "takeWhile (\<lambda>c. c \<noteq> CHR ''-'') (ys @ CHR ''-'' # s') = ys"
    using assms(3) by (induction ys) auto
  ultimately have "xs = ys" using assms(1) by simp
  with assms(1) show ?thesis by simp
qed

lemma hd_digits_not_minus: "digits n = c # cs \<Longrightarrow> c \<noteq> CHR ''-''"
  using digits_no_minus [of n] by auto

lemma chain_key_inj: "chain_key c s = chain_key c' s' \<longleftrightarrow> c = c' \<and> s = s'"
proof
  assume e: "chain_key c s = chain_key c' s'"
  show "c = c' \<and> s = s'"
  proof (cases "c < 0"; cases "c' < 0")
    assume n: "c < 0" "c' < 0"
    with e have "digits (nat (- c)) @ CHR ''-'' # s = digits (nat (- c')) @ CHR ''-'' # s'"
      by (simp add: chain_key_def number_to_string_def)
    then have "digits (nat (- c)) = digits (nat (- c')) \<and> s = s'"
      by (rule split_at_minus) (rule digits_no_minus)+
    then have "nat (- c) = nat (- c')" and "s = s'" by (auto dest: digits_inj)
    with n show ?thesis by simp
  next
    assume n: "\<not> c < 0" "\<not> c' < 0"
    with e have "digits (nat c) @ CHR ''-'' # s = digits (nat c') @ CHR ''-'' # s'"
      by (simp add: chain_key_def number_to_string_def)
    then have "digits (nat c) = digits (nat c') \<and> s = s'"
      by (rule split_at_minus) (rule digits_no_minus)+
    then have "nat c = nat c'" and "s = s'" by (auto dest: digits_inj)
    with n show ?thesis by simp
  next
    assume n: "c < 0" "\<not> c' < 0"
    obtain d ds where d: "digits (nat c') = d # ds"
      using digits_not_Nil [of "nat c'"] by (cases "digits (nat c')") auto
    with e n have "d = CHR ''-''" by (simp add: chain_key_def number_to_string_def)
    with hd_digits_not_minus [OF d] show ?thesis by simp
  next
    assume n: "\<not> c < 0" "c' < 0"
    obtain d ds where d: "digits (nat c) = d # ds"
      using digits_not_Nil [of "nat c"] by (cases "digits (nat c)") auto
    with e n have "d = CHR ''-''" by (simp add: chain_key_def number_to_string_def)
    with hd_digits_not_minus [OF d] show ?thesis by simp
  qed
next
  assume "c = c' \<and> s = s'"
  then show "chain_key c s = chain_key c' s'" by simp
qed

lemma address_key_eq_iff: "address_key L t = address_key L u \<longleftrightarrow> identity_key L t = identity_key L u"
  by (simp add: address_key_def identity_key_def chain_key_inj)

subsection \<open>The duplicate loops\<close>

lemma duplicate_loop_None_iff:
  "duplicate_loop key val report seen ts = None \<longleftrightarrow>
     distinct (map key ts) \<and> (\<forall>t\<in>set ts. seen (key t) = None)"
proof (induction ts arbitrary: seen)
  case Nil
  show ?case by simp
next
  case (Cons t ts)
  show ?case
  proof (cases "seen (key t)")
    case (Some other)
    then show ?thesis by simp
  next
    case None
    have "duplicate_loop key val report seen (t # ts) =
          duplicate_loop key val report (seen(key t \<mapsto> val t)) ts"
      using None by simp
    also have "\<dots> = None \<longleftrightarrow>
        distinct (map key ts) \<and> (\<forall>u\<in>set ts. (seen(key t \<mapsto> val t)) (key u) = None)"
      by (rule Cons.IH)
    also have "\<dots> \<longleftrightarrow> distinct (map key (t # ts)) \<and> (\<forall>u\<in>set (t # ts). seen (key u) = None)"
      using None by (auto simp: image_iff)
    finally show ?thesis .
  qed
qed

lemma not_distinct_map_iff:
  "\<not> distinct (map key ts) \<longleftrightarrow> (\<exists>i j. i < j \<and> j < length ts \<and> key (ts ! i) = key (ts ! j))"
proof
  assume "\<not> distinct (map key ts)"
  then obtain i j where "i < length ts" "j < length ts" "i \<noteq> j" "key (ts ! i) = key (ts ! j)"
    by (auto simp: distinct_conv_nth)
  then show "\<exists>i j. i < j \<and> j < length ts \<and> key (ts ! i) = key (ts ! j)"
  proof (cases "i < j")
    case True
    with \<open>j < length ts\<close> \<open>key (ts ! i) = key (ts ! j)\<close> show ?thesis by blast
  next
    case False
    with \<open>i \<noteq> j\<close> have "j < i" by simp
    with \<open>i < length ts\<close> \<open>key (ts ! i) = key (ts ! j)\<close> show ?thesis by metis
  qed
next
  assume "\<exists>i j. i < j \<and> j < length ts \<and> key (ts ! i) = key (ts ! j)"
  then show "\<not> distinct (map key ts)"
    by (auto simp: distinct_conv_nth) (metis less_trans nat_neq_iff)
qed

lemma duplicate_loop_fails_iff:
  "duplicate_loop key val report Map.empty ts \<noteq> None \<longleftrightarrow>
     (\<exists>i j. i < j \<and> j < length ts \<and> key (ts ! i) = key (ts ! j))"
  by (simp add: duplicate_loop_None_iff not_distinct_map_iff [symmetric])

subsection \<open>The loop over existing tokens\<close>

lemma previousTokens_lookup:
  "previousTokens L p (address_key L t) =
     List.find (\<lambda>q. identity_key L q = identity_key L t) (rev (tokens p))"
proof -
  have "fold (\<lambda>token m. m(address_key L token \<mapsto> token)) ps Map.empty (address_key L t) =
        List.find (\<lambda>q. identity_key L q = identity_key L t) (rev ps)" for ps
  proof (induction ps rule: rev_induct)
    case Nil
    show ?case by simp
  next
    case (snoc x xs)
    then show ?case by (simp add: address_key_eq_iff)
  qed
  then show ?thesis by (simp add: previousTokens_def)
qed

lemma modified_loop_fails_iff:
  "modified_loop L m ts \<noteq> None \<longleftrightarrow>
     (\<exists>t\<in>set ts. \<exists>q. m (address_key L t) = Some q \<and> modified t q)"
  by (induction ts) (auto split: option.splits)

lemma modified_loop_cong:
  "(\<forall>t\<in>set ts. m (address_key L t) = m' (address_key L t)) \<Longrightarrow>
     modified_loop L m ts = modified_loop L m' ts"
  by (induction ts) (auto split: option.splits)

lemma existing_tokens_check_fails_iff:
  "existing_tokens_check L c (Some p) \<noteq> None \<longleftrightarrow>
     (\<exists>t\<in>set (tokens c). \<exists>q.
        List.find (\<lambda>q. identity_key L q = identity_key L t) (rev (tokens p)) = Some q \<and>
        modified t q)"
proof -
  have "existing_tokens_check L c (Some p) = modified_loop L (previousTokens L p) (tokens c)"
    by (simp add: existing_tokens_check_def)
  then show ?thesis by (simp only: modified_loop_fails_iff previousTokens_lookup)
qed

lemma find_unique_key:
  assumes "distinct (map key ps)"
  shows "List.find (\<lambda>q. key q = k) (rev ps) = Some q \<longleftrightarrow> q \<in> set ps \<and> key q = k"
proof
  assume "List.find (\<lambda>q. key q = k) (rev ps) = Some q"
  then show "q \<in> set ps \<and> key q = k"
    by (auto simp: find_Some_iff) (metis length_rev nth_mem set_rev)
next
  assume q: "q \<in> set ps \<and> key q = k"
  then have "List.find (\<lambda>q. key q = k) (rev ps) \<noteq> None"
    by (auto simp: find_None_iff)
  then obtain q' where f: "List.find (\<lambda>q. key q = k) (rev ps) = Some q'" by blast
  then have "q' \<in> set ps \<and> key q' = k"
    by (auto simp: find_Some_iff) (metis length_rev nth_mem set_rev)
  moreover from assms have "inj_on key (set ps)" by (simp add: distinct_map)
  ultimately have "q' = q" using q by (auto dest: inj_onD)
  with f show "List.find (\<lambda>q. key q = k) (rev ps) = Some q" by simp
qed

lemma existing_tokens_check_distinct:
  assumes "distinct (map (identity_key L) (tokens p))"
  shows "existing_tokens_check L c (Some p) \<noteq> None \<longleftrightarrow>
     (\<exists>t\<in>set (tokens c). \<exists>q\<in>set (tokens p). identity_key L q = identity_key L t \<and> modified t q)"
  unfolding existing_tokens_check_fails_iff find_unique_key [OF assms] by blast

lemma find_filter:
  "(\<And>x. P x \<Longrightarrow> Q x) \<Longrightarrow> List.find P (filter Q xs) = List.find P xs"
  by (induction xs) auto

lemma existing_tokens_check_absent:
  "existing_tokens_check L c (Some p) =
   existing_tokens_check L c
     (Some (p\<lparr>tokens := filter (\<lambda>q. identity_key L q \<in> identity_key L ` set (tokens c))
                            (tokens p)\<rparr>))"
proof -
  let ?K = "identity_key L ` set (tokens c)"
  let ?p' = "p\<lparr>tokens := filter (\<lambda>q. identity_key L q \<in> ?K) (tokens p)\<rparr>"
  have "previousTokens L p (address_key L t) = previousTokens L ?p' (address_key L t)"
    if "t \<in> set (tokens c)" for t
  proof -
    have "List.find (\<lambda>q. identity_key L q = identity_key L t)
            (filter (\<lambda>q. identity_key L q \<in> ?K) (rev (tokens p))) =
          List.find (\<lambda>q. identity_key L q = identity_key L t) (rev (tokens p))"
      using that by (intro find_filter) auto
    then show ?thesis by (simp add: previousTokens_lookup rev_filter)
  qed
  then have "modified_loop L (previousTokens L p) (tokens c) =
             modified_loop L (previousTokens L ?p') (tokens c)"
    by (intro modified_loop_cong) blast
  then show ?thesis by (simp add: existing_tokens_check_def)
qed

lemma existing_tokens_check_recase:
  assumes "\<forall>t\<in>set (tokens c). L (recase t) = L (address t)"
  shows "existing_tokens_check L (c\<lparr>tokens := map (\<lambda>t. t\<lparr>address := recase t\<rparr>) (tokens c)\<rparr>)
           (Some p) = None \<longleftrightarrow>
         existing_tokens_check L c (Some p) = None"
proof -
  have k: "identity_key L (t\<lparr>address := recase t\<rparr>) = identity_key L t" if "t \<in> set (tokens c)" for t
    using assms that by (simp add: identity_key_def)
  have m: "modified (t\<lparr>address := recase t\<rparr>) q = modified t q" for t q
    by (simp add: modified_def)
  have "existing_tokens_check L (c\<lparr>tokens := map (\<lambda>t. t\<lparr>address := recase t\<rparr>) (tokens c)\<rparr>)
           (Some p) \<noteq> None \<longleftrightarrow>
        existing_tokens_check L c (Some p) \<noteq> None"
    unfolding existing_tokens_check_fails_iff by (auto simp: k m)
  then show ?thesis by blast
qed

subsection \<open>Two example runs\<close>

lemma feb18_first_run:
  "validateTokenList example_toLowerCase any_schema example_Date 1708257600000 no_content feb18 None =
     \<lparr>console = [Error (InvalidLogoURI ''FOO'' ''https://assets.apertum.io/foo.svg'')],
      requests = [''https://assets.apertum.io/foo.svg''], exit_code = Some 1\<rparr>"
  by (simp add: run_defs check_defs example_defs)

lemma feb18_timestamp: "example_Date (timestamp feb18) = Some 1708257600000"
  by (simp add: example_defs)

lemma feb18_resubmitted:
  "validateTokenList example_toLowerCase any_schema example_Date 1708257600000 all_reachable
     feb18 (Some feb18) =
     \<lparr>console = [Error VersionNotIncremented], requests = [], exit_code = Some 1\<rparr>"
  by (simp add: run_defs check_defs example_defs)

lemma feb18_passes:
  "validateTokenList example_toLowerCase any_schema example_Date 1708257600000 all_reachable feb18 None =
     \<lparr>console = [Passed], requests = [''https://assets.apertum.io/foo.svg''],
      exit_code = None\<rparr>"
  by (simp add: run_defs check_defs example_defs)

section \<open>The claims\<close>

text \<open>
  The source looks a candidate record up in a \<^verbatim>\<open>Map\<close> built from the previous
  document, which keeps, for each key, the last previous record with that key; nothing in the
  function requires the keys of the previous document to be distinct. When the previous
  document lists two records under one key, a candidate record that repeats the first of
  them unchanged is compared with the second and reported as modified.
\<close>

theorem identical_resubmission_counterexample:
  "existing_tokens_check example_toLowerCase (list_at 1 0 1 [] [foo_token])
     (Some (list_at 1 0 0 [] [foo_token, bar_token])) =
     Some (TokenModified ''FOO'' ''0xAAA'')"
  by (simp add: check_defs example_defs)

text \<open>
  Claim C1, as the source has it. With a previous document, the check of existing tokens
  fails, with a message of kind \<open>ImmutableRecordViolation\<close>, exactly when some candidate
  record differs in name, symbol, decimals or logoURI from the last record of the previous
  document that has its identity key. When the identity keys of the previous document are
  distinct, that is the only previous record with the key, and the check fails exactly when
  a candidate record differs from a previous record with its key. A candidate record that
  is itself the last previous record with its key is not reported; so an unchanged
  resubmission passes when the previous keys are distinct. Previous records whose key no
  candidate record has do not influence the result. A whole run prints a message of this
  kind exactly when the five stages before this check pass and this check fails.
\<close>

theorem existing_tokens_check_iff:
  "(existing_tokens_check L c (Some p) \<noteq> None \<longleftrightarrow>
      (\<exists>t\<in>set (tokens c). \<exists>q.
         List.find (\<lambda>q. identity_key L q = identity_key L t) (rev (tokens p)) = Some q \<and>
         (name t \<noteq> name q \<or> symbol t \<noteq> symbol q \<or> decimals t \<noteq> decimals q \<or>
          logoURI t \<noteq> logoURI q))) \<and>
   (distinct (map (identity_key L) (tokens p)) \<longrightarrow>
      (existing_tokens_check L c (Some p) \<noteq> None \<longleftrightarrow>
         (\<exists>t\<in>set (tokens c). \<exists>q\<in>set (tokens p).
            identity_key L q = identity_key L t \<and>
            (name t \<noteq> name q \<or> symbol t \<noteq> symbol q \<or> decimals t \<noteq> decimals q \<or>
             logoURI t \<noteq> logoURI q)))) \<and>
   (\<forall>m. existing_tokens_check L c (Some p) = Some m \<longrightarrow> kind_of m = ImmutableRecordViolation) \<and>
   ((\<forall>t\<in>set (tokens c).
        List.find (\<lambda>q. identity_key L q = identity_key L t) (rev (tokens p)) = Some t) \<longrightarrow>
      existing_tokens_check L c (Some p) = None) \<and>
   (distinct (map (identity_key L) (tokens p)) \<and> set (tokens c) \<subseteq> set (tokens p) \<longrightarrow>
      existing_tokens_check L c (Some p) = None) \<and>
   existing_tokens_check L c (Some p) =
     existing_tokens_check L c
       (Some (p\<lparr>tokens := filter (\<lambda>q. identity_key L q \<in> identity_key L ` set (tokens c))
                              (tokens p)\<rparr>)) \<and>
   ((\<exists>m. Error m \<in> set (console (validateTokenList L V D now H c (Some p))) \<and>
         kind_of m = ImmutableRecordViolation) \<longleftrightarrow>
      schema_check V c = None \<and> fixed_fields_check c = None \<and>
      timestamp_check D now c (Some p) = None \<and> version_check c (Some p) = None \<and>
      uniqueness_check L c = None \<and> existing_tokens_check L c (Some p) \<noteq> None)"
proof -
  have run: "(\<exists>m. Error m \<in> set (console (validateTokenList L V D now H c (Some p))) \<and>
         kind_of m = ImmutableRecordViolation) \<longleftrightarrow>
      schema_check V c = None \<and> fixed_fields_check c = None \<and>
      timestamp_check D now c (Some p) = None \<and> version_check c (Some p) = None \<and>
      uniqueness_check L c = None \<and> existing_tokens_check L c (Some p) \<noteq> None"
    by (simp only: run_reports_iff reports_immutable_record_iff violation_kind.distinct
                   not_False_eq_True)
  have a: "existing_tokens_check L c (Some p) \<noteq> None \<longleftrightarrow>
      (\<exists>t\<in>set (tokens c). \<exists>q.
         List.find (\<lambda>q. identity_key L q = identity_key L t) (rev (tokens p)) = Some q \<and>
         (name t \<noteq> name q \<or> symbol t \<noteq> symbol q \<or> decimals t \<noteq> decimals q \<or>
          logoURI t \<noteq> logoURI q))"
    unfolding existing_tokens_check_fails_iff modified_def ..
  have b: "existing_tokens_check L c (Some p) \<noteq> None \<longleftrightarrow>
         (\<exists>t\<in>set (tokens c). \<exists>q\<in>set (tokens p).
            identity_key L q = identity_key L t \<and>
            (name t \<noteq> name q \<or> symbol t \<noteq> symbol q \<or> decimals t \<noteq> decimals q \<or>
             logoURI t \<noteq> logoURI q))"
    if "distinct (map (identity_key L) (tokens p))"
    using existing_tokens_check_distinct [OF that, of c] unfolding modified_def .
  have k: "\<forall>m. existing_tokens_check L c (Some p) = Some m \<longrightarrow>
      kind_of m = ImmutableRecordViolation"
    by (auto simp: existing_tokens_check_def dest: modified_loop_message)
  have r: "existing_tokens_check L c (Some p) = None"
    if d: "distinct (map (identity_key L) (tokens p))" and s: "set (tokens c) \<subseteq> set (tokens p)"
  proof (rule ccontr)
    assume "existing_tokens_check L c (Some p) \<noteq> None"
    then obtain t q where t: "t \<in> set (tokens c)" and q: "q \<in> set (tokens p)"
      and e: "identity_key L q = identity_key L t" and m: "modified t q"
      unfolding existing_tokens_check_distinct [OF d] by blast
    from d have "inj_on (identity_key L) (set (tokens p))" by (simp add: distinct_map)
    with t s q e have "q = t" by (auto dest: inj_onD)
    with m show False by (simp add: modified_def)
  qed
  have g: "existing_tokens_check L c (Some p) = None"
    if "\<forall>t\<in>set (tokens c).
        List.find (\<lambda>q. identity_key L q = identity_key L t) (rev (tokens p)) = Some t"
  proof (rule ccontr)
    assume "existing_tokens_check L c (Some p) \<noteq> None"
    then obtain t q where "t \<in> set (tokens c)"
      and "List.find (\<lambda>q. identity_key L q = identity_key L t) (rev (tokens p)) = Some q"
      and m: "modified t q"
      unfolding existing_tokens_check_fails_iff by blast
    with that have "q = t" by auto
    with m show False by (simp add: modified_def)
  qed
  from a b k g r existing_tokens_check_absent [of L c p] run show ?thesis by blast
qed

theorem existing_tokens_check_iff_witness:
  "distinct (map (identity_key example_toLowerCase) (tokens (list_at 1 0 0 [] [foo_token]))) \<and>
   existing_tokens_check example_toLowerCase (list_at 1 0 1 [] [foo_token\<lparr>decimals := 6\<rparr>])
     (Some (list_at 1 0 0 [] [foo_token])) \<noteq> None \<and>
   existing_tokens_check example_toLowerCase (list_at 1 0 1 [] [foo_token])
     (Some (list_at 1 0 0 [] [foo_token])) = None \<and>
   existing_tokens_check example_toLowerCase (list_at 1 0 1 [] []) (Some (list_at 1 0 0 [] [foo_token])) = None"
proof -
  let ?p = "list_at 1 0 0 [] [foo_token]"
  let ?c = "list_at 1 0 1 [] [foo_token\<lparr>decimals := 6\<rparr>]"
  let ?same = "list_at 1 0 1 [] [foo_token]"
  let ?gone = "list_at 1 0 1 [] []"
  have d: "distinct (map (identity_key example_toLowerCase) (tokens ?p))" by (simp add: list_at_def)
  have "\<exists>t\<in>set (tokens ?c). \<exists>q\<in>set (tokens ?p). identity_key example_toLowerCase q = identity_key example_toLowerCase t \<and>
          (name t \<noteq> name q \<or> symbol t \<noteq> symbol q \<or> decimals t \<noteq> decimals q \<or>
           logoURI t \<noteq> logoURI q)"
    by (simp add: list_at_def identity_key_def foo_token_def)
  with existing_tokens_check_iff [where L = example_toLowerCase and c = "?c" and p = "?p"] d
  have 1: "existing_tokens_check example_toLowerCase ?c (Some ?p) \<noteq> None" by blast
  have "set (tokens ?same) \<subseteq> set (tokens ?p)" by (simp add: list_at_def)
  with existing_tokens_check_iff [where L = example_toLowerCase and c = "?same" and p = "?p"] d
  have 2: "existing_tokens_check example_toLowerCase ?same (Some ?p) = None" by blast
  have "set (tokens ?gone) \<subseteq> set (tokens ?p)" by (simp add: list_at_def)
  with existing_tokens_check_iff [where L = example_toLowerCase and c = "?gone" and p = "?p"] d
  have 3: "existing_tokens_check example_toLowerCase ?gone (Some ?p) = None" by blast
  from d 1 2 3 show ?thesis by blast
qed

text \<open>
  Claim C2. With a previous document, the version check passes exactly when the previous
  triple (major, minor, patch) is below the candidate's in the lexicographic order, and its
  only message is of kind \<open>VersionViolation\<close>. A whole run prints a message of this kind
  exactly when the three stages before the version check pass and the version check fails.
  The witness runs the four examples of the specification against a previous version 1.0.0.
\<close>

theorem version_check_lexicographic:
  "(version_check c (Some p) = None \<longleftrightarrow>
      (major (version p), minor (version p), patch (version p))
        < (major (version c), minor (version c), patch (version c))) \<and>
   (\<forall>m. version_check c (Some p) = Some m \<longrightarrow> kind_of m = VersionViolation) \<and>
   ((\<exists>m. Error m \<in> set (console (validateTokenList L V D now H c (Some p))) \<and>
         kind_of m = VersionViolation) \<longleftrightarrow>
      schema_check V c = None \<and> fixed_fields_check c = None \<and>
      timestamp_check D now c (Some p) = None \<and> version_check c (Some p) \<noteq> None)"
proof -
  have a: "version_check c (Some p) = None \<longleftrightarrow>
      (major (version p), minor (version p), patch (version p))
        < (major (version c), minor (version c), patch (version c))"
    by (auto simp: version_check_def Let_def less_prod_def)
  have k: "\<forall>m. version_check c (Some p) = Some m \<longrightarrow> kind_of m = VersionViolation"
    by (auto dest: version_check_kind)
  have run: "(\<exists>m. Error m \<in> set (console (validateTokenList L V D now H c (Some p))) \<and>
         kind_of m = VersionViolation) \<longleftrightarrow>
      schema_check V c = None \<and> fixed_fields_check c = None \<and>
      timestamp_check D now c (Some p) = None \<and> version_check c (Some p) \<noteq> None"
    by (simp only: run_reports_iff reports_version_iff violation_kind.distinct
                   not_False_eq_True)
  from a k run show ?thesis by blast
qed

theorem version_check_lexicographic_witness:
  "version_check (list_at 1 0 0 '''' []) (Some (list_at 1 0 0 '''' [])) \<noteq> None \<and>
   version_check (list_at 0 9 9 '''' []) (Some (list_at 1 0 0 '''' [])) \<noteq> None \<and>
   version_check (list_at 1 0 1 '''' []) (Some (list_at 1 0 0 '''' [])) = None \<and>
   version_check (list_at 1 1 0 '''' []) (Some (list_at 1 0 0 '''' [])) = None"
  using version_check_lexicographic [of "list_at 1 0 0 '''' []" "list_at 1 0 0 '''' []"]
        version_check_lexicographic [of "list_at 0 9 9 '''' []" "list_at 1 0 0 '''' []"]
        version_check_lexicographic [of "list_at 1 0 1 '''' []" "list_at 1 0 0 '''' []"]
        version_check_lexicographic [of "list_at 1 1 0 '''' []" "list_at 1 0 0 '''' []"]
  by (simp add: list_at_def less_prod_def)

text \<open>
  Claim C3. The uniqueness stage fails, with a message of kind \<open>DuplicateViolation\<close>,
  exactly when two records at different positions have the same chain id and the same
  lower-cased address, lower-cased name, lower-cased symbol, or logoURI as written, where
  lower-casing is the \<open>toLowerCase\<close> of the runtime, here the parameter \<open>L\<close>, whatever
  characters it changes. Two records on one chain whose addresses have the same lower-case
  form are duplicates; two records on different chains never are. A whole run prints a
  message of this kind exactly when the four stages before the uniqueness stage pass and
  the uniqueness stage fails.
\<close>

theorem uniqueness_check_iff:
  "(uniqueness_check L c \<noteq> None \<longleftrightarrow>
      (\<exists>i j. i < j \<and> j < length (tokens c) \<and>
         chainId (tokens c ! i) = chainId (tokens c ! j) \<and>
         (L (address (tokens c ! i)) = L (address (tokens c ! j)) \<or>
          L (name (tokens c ! i)) = L (name (tokens c ! j)) \<or>
          L (symbol (tokens c ! i)) = L (symbol (tokens c ! j)) \<or>
          logoURI (tokens c ! i) = logoURI (tokens c ! j)))) \<and>
   (\<forall>m. uniqueness_check L c = Some m \<longrightarrow> kind_of m = DuplicateViolation) \<and>
   (\<forall>t u. tokens c = [t, u] \<and> chainId t = chainId u \<and>
      L (address t) = L (address u) \<longrightarrow> uniqueness_check L c \<noteq> None) \<and>
   (\<forall>t u. tokens c = [t, u] \<and> chainId t \<noteq> chainId u \<longrightarrow> uniqueness_check L c = None) \<and>
   ((\<exists>m. Error m \<in> set (console (validateTokenList L V D now H c prev)) \<and>
         kind_of m = DuplicateViolation) \<longleftrightarrow>
      schema_check V c = None \<and> fixed_fields_check c = None \<and>
      timestamp_check D now c prev = None \<and> version_check c prev = None \<and>
      uniqueness_check L c \<noteq> None)"
proof -
  have run: "(\<exists>m. Error m \<in> set (console (validateTokenList L V D now H c prev)) \<and>
         kind_of m = DuplicateViolation) \<longleftrightarrow>
      schema_check V c = None \<and> fixed_fields_check c = None \<and>
      timestamp_check D now c prev = None \<and> version_check c prev = None \<and>
      uniqueness_check L c \<noteq> None"
    by (simp only: run_reports_iff reports_duplicate_iff violation_kind.distinct
                   not_False_eq_True)
  let ?ts = "tokens c"
  have a: "address_duplicates L c \<noteq> None \<longleftrightarrow>
      (\<exists>i j. i < j \<and> j < length ?ts \<and> chainId (?ts ! i) = chainId (?ts ! j) \<and>
         L (address (?ts ! i)) = L (address (?ts ! j)))"
    unfolding address_duplicates_def duplicate_loop_fails_iff
    by (simp add: address_key_def chain_key_inj)
  have n: "name_duplicates L c \<noteq> None \<longleftrightarrow>
      (\<exists>i j. i < j \<and> j < length ?ts \<and> chainId (?ts ! i) = chainId (?ts ! j) \<and>
         L (name (?ts ! i)) = L (name (?ts ! j)))"
    unfolding name_duplicates_def duplicate_loop_fails_iff
    by (simp add: name_key_def chain_key_inj)
  have s: "symbol_duplicates L c \<noteq> None \<longleftrightarrow>
      (\<exists>i j. i < j \<and> j < length ?ts \<and> chainId (?ts ! i) = chainId (?ts ! j) \<and>
         L (symbol (?ts ! i)) = L (symbol (?ts ! j)))"
    unfolding symbol_duplicates_def duplicate_loop_fails_iff
    by (simp add: symbol_key_def chain_key_inj)
  have l: "logoURI_duplicates c \<noteq> None \<longleftrightarrow>
      (\<exists>i j. i < j \<and> j < length ?ts \<and> chainId (?ts ! i) = chainId (?ts ! j) \<and>
         logoURI (?ts ! i) = logoURI (?ts ! j))"
    unfolding logoURI_duplicates_def duplicate_loop_fails_iff
    by (simp add: logoURI_key_def chain_key_inj)
  have "uniqueness_check L c \<noteq> None \<longleftrightarrow>
      address_duplicates L c \<noteq> None \<or> name_duplicates L c \<noteq> None \<or>
      symbol_duplicates L c \<noteq> None \<or> logoURI_duplicates c \<noteq> None"
    by (simp add: uniqueness_check_def first_failure_None_iff)
  then have "uniqueness_check L c \<noteq> None \<longleftrightarrow>
      (\<exists>i j. i < j \<and> j < length ?ts \<and> chainId (?ts ! i) = chainId (?ts ! j) \<and>
         (L (address (?ts ! i)) = L (address (?ts ! j)) \<or>
          L (name (?ts ! i)) = L (name (?ts ! j)) \<or>
          L (symbol (?ts ! i)) = L (symbol (?ts ! j)) \<or>
          logoURI (?ts ! i) = logoURI (?ts ! j)))"
    unfolding a n s l by blast
  note main = this
  have two: "uniqueness_check L c \<noteq> None"
    if "tokens c = [t, u]" "chainId t = chainId u"
       "L (address t) = L (address u)" for t u
  proof -
    have "(0::nat) < 1 \<and> 1 < length ?ts \<and> chainId (?ts ! 0) = chainId (?ts ! 1) \<and>
          L (address (?ts ! 0)) = L (address (?ts ! 1))"
      using that by simp
    then show ?thesis unfolding main by blast
  qed
  have apart: "uniqueness_check L c = None"
    if "tokens c = [t, u]" "chainId t \<noteq> chainId u" for t u
  proof -
    have "\<not> (\<exists>i j. i < j \<and> j < length ?ts \<and> chainId (?ts ! i) = chainId (?ts ! j))"
    proof
      assume "\<exists>i j. i < j \<and> j < length ?ts \<and> chainId (?ts ! i) = chainId (?ts ! j)"
      then obtain i j where ij: "i < j" "j < length ?ts" "chainId (?ts ! i) = chainId (?ts ! j)"
        by blast
      from ij(1,2) that(1) have "i = 0" "j = 1" by auto
      with ij(3) that show False by simp
    qed
    then show ?thesis using main by blast
  qed
  from main two apart run show ?thesis using uniqueness_check_kind by blast
qed

theorem uniqueness_check_iff_witness:
  "example_toLowerCase (address foo_token) = example_toLowerCase (address bar_token) \<and>
   uniqueness_check example_toLowerCase (list_at 1 0 0 [] [foo_token, bar_token]) \<noteq> None \<and>
   uniqueness_check example_toLowerCase (list_at 1 0 0 [] [foo_token, foo_token\<lparr>chainId := 2786\<rparr>]) = None"
proof -
  let ?c = "list_at 1 0 0 [] [foo_token, bar_token]"
  let ?d = "list_at 1 0 0 [] [foo_token, foo_token\<lparr>chainId := 2786\<rparr>]"
  have l: "example_toLowerCase (address foo_token) = example_toLowerCase (address bar_token)"
    by (simp add: foo_token_def bar_token_def example_toLowerCase_def example_lower_char_def
                  upper_letters_def lower_letters_def)
  have c: "tokens ?c = [foo_token, bar_token] \<and> chainId foo_token = chainId bar_token"
    by (simp add: list_at_def foo_token_def bar_token_def)
  have d: "tokens ?d = [foo_token, foo_token\<lparr>chainId := 2786\<rparr>] \<and>
           chainId foo_token \<noteq> chainId (foo_token\<lparr>chainId := 2786\<rparr>)"
    by (simp add: list_at_def foo_token_def)
  from uniqueness_check_iff [where L = example_toLowerCase and c = "?c"] l c have "uniqueness_check example_toLowerCase ?c \<noteq> None" by blast
  moreover from uniqueness_check_iff [where L = example_toLowerCase and c = "?d"] d have "uniqueness_check example_toLowerCase ?d = None" by blast
  ultimately show ?thesis using l by blast
qed

text \<open>
  Claim C4. The timestamp stage fails exactly when the candidate's timestamp is a valid date
  strictly after the evaluation time, or a previous document is given whose timestamp is a
  valid date strictly after the candidate's. Every message of the stage is of kind
  \<open>TimestampViolation\<close>. A timestamp equal to the previous one (and not in the future)
  passes; a timestamp in the future fails whatever the previous document is. A whole run
  prints a message of this kind exactly when the schema and the fixed list fields pass and
  the timestamp stage fails.
\<close>

theorem timestamp_check_iff:
  "(timestamp_check Date now c prev \<noteq> None \<longleftrightarrow>
      (\<exists>t. Date (timestamp c) = Some t \<and>
           (now < t \<or> (\<exists>p t0. prev = Some p \<and> Date (timestamp p) = Some t0 \<and> t < t0)))) \<and>
   (\<forall>m. timestamp_check Date now c prev = Some m \<longrightarrow> kind_of m = TimestampViolation) \<and>
   (\<forall>p t. Date (timestamp c) = Some t \<and> Date (timestamp p) = Some t \<and> t \<le> now \<longrightarrow>
      timestamp_check Date now c (Some p) = None) \<and>
   (\<forall>t. Date (timestamp c) = Some t \<and> now < t \<longrightarrow>
      timestamp_check Date now c prev = Some TimestampInFuture) \<and>
   ((\<exists>m. Error m \<in> set (console (validateTokenList L V Date now H c prev)) \<and>
         kind_of m = TimestampViolation) \<longleftrightarrow>
      schema_check V c = None \<and> fixed_fields_check c = None \<and>
      timestamp_check Date now c prev \<noteq> None)"
proof -
  have run: "(\<exists>m. Error m \<in> set (console (validateTokenList L V Date now H c prev)) \<and>
         kind_of m = TimestampViolation) \<longleftrightarrow>
      schema_check V c = None \<and> fixed_fields_check c = None \<and>
      timestamp_check Date now c prev \<noteq> None"
    by (simp only: run_reports_iff reports_timestamp_iff violation_kind.distinct
                   not_False_eq_True)
  have fut: "future_check Date now c \<noteq> None \<longleftrightarrow> (\<exists>t. Date (timestamp c) = Some t \<and> now < t)"
    by (cases "Date (timestamp c)") (simp_all add: future_check_def)
  have reg: "regression_check Date c prev \<noteq> None \<longleftrightarrow>
      (\<exists>t p t0. Date (timestamp c) = Some t \<and> prev = Some p \<and> Date (timestamp p) = Some t0 \<and> t < t0)"
  proof (cases prev)
    case None
    then show ?thesis by (simp add: regression_check_def)
  next
    case (Some p)
    then show ?thesis
      by (cases "Date (timestamp c)"; cases "Date (timestamp p)")
         (simp_all add: regression_check_def)
  qed
  have "timestamp_check Date now c prev \<noteq> None \<longleftrightarrow>
      future_check Date now c \<noteq> None \<or> regression_check Date c prev \<noteq> None"
    by (simp add: timestamp_check_def first_failure_None_iff)
  then have a: "timestamp_check Date now c prev \<noteq> None \<longleftrightarrow>
      (\<exists>t. Date (timestamp c) = Some t \<and>
           (now < t \<or> (\<exists>p t0. prev = Some p \<and> Date (timestamp p) = Some t0 \<and> t < t0)))"
    unfolding fut reg by blast
  have b: "\<forall>m. timestamp_check Date now c prev = Some m \<longrightarrow> kind_of m = TimestampViolation"
    by (auto simp: timestamp_check_def future_check_def regression_check_def Let_def
             split: if_splits option.splits)
  have c: "\<forall>p t. Date (timestamp c) = Some t \<and> Date (timestamp p) = Some t \<and> t \<le> now \<longrightarrow>
      timestamp_check Date now c (Some p) = None"
    by (simp add: timestamp_check_def future_check_def regression_check_def)
  have d: "\<forall>t. Date (timestamp c) = Some t \<and> now < t \<longrightarrow>
      timestamp_check Date now c prev = Some TimestampInFuture"
    by (simp add: timestamp_check_def future_check_def)
  from a b c d run show ?thesis by blast
qed

theorem timestamp_check_iff_witness:
  "example_Date (timestamp feb18) = Some 1708257600000 \<and>
   timestamp_check example_Date 1708257600000 feb18 (Some feb18) = None \<and>
   timestamp_check example_Date 1708257599999 feb18 (Some feb18) = Some TimestampInFuture \<and>
   kind_of TimestampInFuture = TimestampViolation"
  using timestamp_check_iff [of example_Date 1708257600000 feb18 "Some feb18"]
        timestamp_check_iff [of example_Date 1708257599999 feb18 "Some feb18"]
  by (simp add: feb18_timestamp)

text \<open>
  Claim C5. Without a previous document the version check, the check of existing tokens and
  the regression half of the timestamp stage report nothing, whatever the first version
  number is; no line that the run prints is of kind \<open>VersionViolation\<close> or
  \<open>ImmutableRecordViolation\<close> or is the regression message; and the whole timestamp stage
  passes when the timestamp is not in the future.
\<close>

theorem no_previous_checks_vacuous:
  "version_check c None = None \<and>
   existing_tokens_check L c None = None \<and>
   regression_check D c None = None \<and>
   (\<forall>m. Error m \<in> set (console (validateTokenList L V D now H c None)) \<longrightarrow>
        kind_of m \<noteq> VersionViolation \<and> kind_of m \<noteq> ImmutableRecordViolation \<and>
        m \<noteq> TimestampOlder) \<and>
   (\<not> date_gt (D (timestamp c)) (Some now) \<longrightarrow> timestamp_check D now c None = None)"
proof -
  have a: "version_check c None = None" by (simp add: version_check_def)
  have b: "existing_tokens_check L c None = None" by (simp add: existing_tokens_check_def)
  have r: "regression_check D c None = None" by (simp add: regression_check_def)
  have d: "\<not> date_gt (D (timestamp c)) (Some now) \<longrightarrow> timestamp_check D now c None = None"
    by (simp add: timestamp_check_def future_check_def regression_check_def)
  have e: "kind_of m \<noteq> VersionViolation \<and> kind_of m \<noteq> ImmutableRecordViolation \<and>
        m \<noteq> TimestampOlder"
    if "Error m \<in> set (console (validateTokenList L V D now H c None))" for m
  proof -
    from run_outcome [of L V D now c None H] that
    consider "kind_of m = UnreachableLogoViolation"
      | "first_failure (deterministic_checks L V D now c None) = Some m"
      by auto
    then show ?thesis
    proof cases
      case 1
      then show ?thesis by auto
    next
      case 2
      from deterministic_failure_cases [OF 2] show ?thesis by auto
    qed
  qed
  from a b r d e show ?thesis by blast
qed

theorem no_previous_checks_vacuous_witness:
  "\<not> date_gt (example_Date (timestamp feb18)) (Some 1708257600000) \<and>
   timestamp_check example_Date 1708257600000 feb18 None = None \<and>
   Error (InvalidLogoURI ''FOO'' ''https://assets.apertum.io/foo.svg'')
     \<in> set (console (validateTokenList example_toLowerCase any_schema example_Date 1708257600000
                        no_content feb18 None)) \<and>
   kind_of (InvalidLogoURI ''FOO'' ''https://assets.apertum.io/foo.svg'') \<noteq> VersionViolation"
  using no_previous_checks_vacuous
          [where c = feb18 and D = example_Date and L = example_toLowerCase and
             V = any_schema and now = 1708257600000 and H = no_content]
  by (simp add: feb18_first_run feb18_timestamp)

text \<open>
  The source reports a violation by printing it and calling \<^verbatim>\<open>process.exit(1)\<close>: the
  run of a candidate against itself stops at the version check with exit code 1, so the
  validator does terminate the process.
\<close>

theorem validator_returns_violations_counterexample:
  "exit_code (validateTokenList example_toLowerCase any_schema example_Date 1708257600000 all_reachable
                feb18 (Some feb18)) = Some 1"
  by (simp add: run_defs check_defs example_defs)

text \<open>
  Claim C6, as the source has it. Every run ends in one of three ways. (1) All thirteen
  checks pass and every logo request answers 200: the run has requested every logoURI in
  order, prints the success line alone and returns, without an exit code. (2) Some check
  fails: the run prints exactly one error line, the message of the first of the thirteen
  checks, in source order, that fails; it has requested nothing and terminates the process
  itself with exit code 1. (3) All thirteen checks pass and some logo request does not
  answer 200: the run has requested the logoURIs up to and including the first such record,
  prints exactly one error line for that record (the invalid-logo message when the request
  resolved with another status, the request-failed message when it was rejected) and
  terminates the process itself with exit code 1. No violation is returned to the caller.
\<close>

theorem run_ends_in_return_or_exit:
  "((\<forall>r\<in>set (source_checks L V D now c prev). r = None) \<and>
    (\<forall>t\<in>set (tokens c). H (logoURI t) = Status 200) \<and>
    validateTokenList L V D now H c prev =
      \<lparr>console = [Passed], requests = map logoURI (tokens c), exit_code = None\<rparr>) \<or>
   (\<exists>as m bs. source_checks L V D now c prev = as @ Some m # bs \<and>
      (\<forall>r\<in>set as. r = None) \<and>
      validateTokenList L V D now H c prev =
        \<lparr>console = [Error m], requests = [], exit_code = Some 1\<rparr>) \<or>
   ((\<forall>r\<in>set (source_checks L V D now c prev). r = None) \<and>
    (\<exists>as t bs m. tokens c = as @ t # bs \<and>
       (\<forall>u\<in>set as. H (logoURI u) = Status 200) \<and>
       ((\<exists>n. H (logoURI t) = Status n \<and> n \<noteq> 200 \<and>
             m = InvalidLogoURI (symbol t) (logoURI t)) \<or>
        (H (logoURI t) = Rejected \<and> m = LogoRequestFailed (symbol t) (logoURI t))) \<and>
       validateTokenList L V D now H c prev =
         \<lparr>console = [Error m], requests = map logoURI (as @ [t]), exit_code = Some 1\<rparr>))"
proof (cases "first_failure (source_checks L V D now c prev)")
  case (Some m)
  then have "first_failure (deterministic_checks L V D now c prev) = Some m"
    by (simp only: stages_are_source_checks)
  then have "validateTokenList L V D now H c prev =
      \<lparr>console = [Error m], requests = [], exit_code = Some 1\<rparr>"
    by (simp add: run_failed fail_def start_def)
  moreover from Some obtain as bs
    where "source_checks L V D now c prev = as @ Some m # bs" "\<forall>r\<in>set as. r = None"
    unfolding first_failure_Some_iff by blast
  ultimately show ?thesis by blast
next
  case None
  then have all: "\<forall>r\<in>set (source_checks L V D now c prev). r = None"
    by (simp only: first_failure_None_iff)
  from None have "first_failure (deterministic_checks L V D now c prev) = None"
    by (simp only: stages_are_source_checks)
  then have run: "validateTokenList L V D now H c prev =
      log_passed (logo_loop H (tokens c) start)"
    by (rule run_passed)
  have e: "exit_code start = None" by (simp add: start_def)
  from logo_loop_result [OF e, of "tokens c" H] show ?thesis
  proof
    assume a: "(\<forall>t\<in>set (tokens c). H (logoURI t) = Status 200) \<and>
      logo_loop H (tokens c) start = start\<lparr>requests := requests start @ map logoURI (tokens c)\<rparr>"
    then have "validateTokenList L V D now H c prev =
        \<lparr>console = [Passed], requests = map logoURI (tokens c), exit_code = None\<rparr>"
      unfolding run by (simp add: log_passed_def start_def)
    with a all show ?thesis by blast
  next
    assume "\<exists>as t bs m. tokens c = as @ t # bs \<and>
       (\<forall>u\<in>set as. H (logoURI u) = Status 200) \<and>
       ((\<exists>n. H (logoURI t) = Status n \<and> n \<noteq> 200 \<and>
             m = InvalidLogoURI (symbol t) (logoURI t)) \<or>
        (H (logoURI t) = Rejected \<and> m = LogoRequestFailed (symbol t) (logoURI t))) \<and>
       logo_loop H (tokens c) start =
         start\<lparr>console := console start @ [Error m],
           requests := requests start @ map logoURI (as @ [t]),
           exit_code := Some 1\<rparr>"
    then obtain as t bs m where ts: "tokens c = as @ t # bs"
      and ok: "\<forall>u\<in>set as. H (logoURI u) = Status 200"
      and msg: "(\<exists>n. H (logoURI t) = Status n \<and> n \<noteq> 200 \<and>
             m = InvalidLogoURI (symbol t) (logoURI t)) \<or>
        (H (logoURI t) = Rejected \<and> m = LogoRequestFailed (symbol t) (logoURI t))"
      and r: "logo_loop H (tokens c) start =
         start\<lparr>console := console start @ [Error m],
           requests := requests start @ map logoURI (as @ [t]),
           exit_code := Some 1\<rparr>"
      by blast
    have "validateTokenList L V D now H c prev =
        \<lparr>console = [Error m], requests = map logoURI (as @ [t]), exit_code = Some 1\<rparr>"
      unfolding run r by (simp add: log_passed_def start_def)
    with all ts ok msg show ?thesis by blast
  qed
qed

theorem run_ends_in_return_or_exit_witness:
  "validateTokenList example_toLowerCase any_schema example_Date 1708257600000 all_reachable
     feb18 None =
     \<lparr>console = [Passed], requests = map logoURI (tokens feb18), exit_code = None\<rparr> \<and>
   validateTokenList example_toLowerCase any_schema example_Date 1708257600000 all_reachable
     feb18 (Some feb18) =
     \<lparr>console = [Error VersionNotIncremented], requests = [], exit_code = Some 1\<rparr> \<and>
   validateTokenList example_toLowerCase any_schema example_Date 1708257600000 no_content
     feb18 None =
     \<lparr>console = [Error (InvalidLogoURI ''FOO'' ''https://assets.apertum.io/foo.svg'')],
      requests = [''https://assets.apertum.io/foo.svg''], exit_code = Some 1\<rparr>"
proof -
  have t: "tokens feb18 = [foo_token]" by (simp add: feb18_def list_at_def)
  have u: "logoURI foo_token = ''https://assets.apertum.io/foo.svg''"
    by (simp add: foo_token_def)
  from run_ends_in_return_or_exit
         [where L = example_toLowerCase and V = any_schema and D = example_Date and
            now = 1708257600000 and H = all_reachable and c = feb18 and prev = None]
  have 1: "validateTokenList example_toLowerCase any_schema example_Date 1708257600000
      all_reachable feb18 None =
      \<lparr>console = [Passed], requests = map logoURI (tokens feb18), exit_code = None\<rparr>"
    by (simp add: feb18_passes t u)
  from 1 feb18_resubmitted feb18_first_run show ?thesis by simp
qed

text \<open>
  The source reads the clock (\<^verbatim>\<open>new Date()\<close>) inside the function, so the checks before
  the logo requests are not a function of the candidate, the previous document and the
  configuration alone: the same candidate fails one millisecond before its own timestamp and
  passes at it.
\<close>

theorem deterministic_part_pure_counterexample:
  "deterministic_part example_toLowerCase any_schema example_Date 1708257599999 feb18 None \<noteq>
   deterministic_part example_toLowerCase any_schema example_Date 1708257600000 feb18 None"
  by (simp add: run_defs check_defs example_defs)

text \<open>
  Claim C7, as the source has it. The checks before the logo requests are a function of the
  candidate, the previous document, the configuration and the evaluation time, and depend
  on the evaluation time only through the future-timestamp comparison: two runs on the same
  documents agree whenever the candidate's timestamp, if it is a valid date, is in the
  future at both evaluation times or at neither.
\<close>

theorem deterministic_part_depends_on_clock:
  "(\<forall>t. D (timestamp c) = Some t \<longrightarrow> (now1 < t \<longleftrightarrow> now2 < t)) \<Longrightarrow>
     deterministic_part L V D now1 c prev = deterministic_part L V D now2 c prev"
proof -
  assume a: "\<forall>t. D (timestamp c) = Some t \<longrightarrow> (now1 < t \<longleftrightarrow> now2 < t)"
  have "future_check D now1 c = future_check D now2 c"
    using a by (cases "D (timestamp c)") (simp_all add: future_check_def)
  then have "timestamp_check D now1 c prev = timestamp_check D now2 c prev"
    by (simp add: timestamp_check_def)
  then show ?thesis
    by (simp add: deterministic_part_def deterministic_checks_def)
qed

theorem deterministic_part_depends_on_clock_witness:
  "example_Date (timestamp feb18) = Some 1708257600000 \<and>
   deterministic_part example_toLowerCase any_schema example_Date 1708257600000 feb18 None =
   deterministic_part example_toLowerCase any_schema example_Date 1708344000000 feb18 None"
  using deterministic_part_depends_on_clock
          [where D = example_Date and c = feb18 and ?now1.0 = 1708257600000 and
             ?now2.0 = 1708344000000 and L = example_toLowerCase and V = any_schema and
             prev = None]
  by (simp add: feb18_timestamp)

text \<open>
  Claim C8. When any of the seven stages before the logo loop fails, the run has requested
  no logoURI at all. Requests are issued once all seven pass: then a candidate with at
  least one record requests the logoURI of its first record first.
\<close>

theorem logo_requests_run_last:
  "((schema_check V c \<noteq> None \<or> fixed_fields_check c \<noteq> None \<or>
     timestamp_check D now c prev \<noteq> None \<or> version_check c prev \<noteq> None \<or>
     uniqueness_check L c \<noteq> None \<or> existing_tokens_check L c prev \<noteq> None \<or>
     chain_ids_check c \<noteq> None) \<longrightarrow>
      requests (validateTokenList L V D now H c prev) = []) \<and>
   (schema_check V c = None \<and> fixed_fields_check c = None \<and>
    timestamp_check D now c prev = None \<and> version_check c prev = None \<and>
    uniqueness_check L c = None \<and> existing_tokens_check L c prev = None \<and>
    chain_ids_check c = None \<and> tokens c \<noteq> [] \<longrightarrow>
      requests (validateTokenList L V D now H c prev) \<noteq> [] \<and>
      hd (requests (validateTokenList L V D now H c prev)) = logoURI (hd (tokens c)))"
proof -
  have all: "first_failure (deterministic_checks L V D now c prev) = None \<longleftrightarrow>
      schema_check V c = None \<and> fixed_fields_check c = None \<and>
      timestamp_check D now c prev = None \<and> version_check c prev = None \<and>
      uniqueness_check L c = None \<and> existing_tokens_check L c prev = None \<and>
      chain_ids_check c = None"
    by (simp add: first_failure_None_iff deterministic_checks_def)
  have a: "requests (validateTokenList L V D now H c prev) = []"
    if "first_failure (deterministic_checks L V D now c prev) \<noteq> None"
    using that run_outcome [of L V D now c prev H] by auto
  have b: "requests (validateTokenList L V D now H c prev) \<noteq> [] \<and>
      hd (requests (validateTokenList L V D now H c prev)) = logoURI (hd (tokens c))"
    if n: "first_failure (deterministic_checks L V D now c prev) = None" and ne: "tokens c \<noteq> []"
  proof -
    obtain t ts where ts: "tokens c = t # ts" using ne by (cases "tokens c") auto
    let ?s = "start\<lparr>requests := requests start @ [logoURI t]\<rparr>"
    have e: "exit_code ?s = None" by (simp add: start_def)
    have "\<exists>us. requests (logo_loop H (t # ts) start) = logoURI t # us"
    proof (cases "H (logoURI t)")
      case Rejected
      then show ?thesis by (simp add: start_def fail_def)
    next
      case (Status n)
      show ?thesis
      proof (cases "n = 200")
        case False
        with Status show ?thesis by (simp add: start_def fail_def)
      next
        case True
        then have step: "logo_loop H (t # ts) start = logo_loop H ts ?s"
          using Status by (simp add: start_def)
        from logo_loop_cases [OF e, of H ts] show ?thesis
          unfolding step by (auto simp: start_def)
      qed
    qed
    then obtain us where "requests (logo_loop H (tokens c) start) = logoURI t # us"
      using ts by auto
    then have "requests (validateTokenList L V D now H c prev) = logoURI t # us"
      using n by (simp add: run_passed log_passed_def)
    then show ?thesis using ts by simp
  qed
  show ?thesis
  proof (intro conjI impI)
    assume "schema_check V c \<noteq> None \<or> fixed_fields_check c \<noteq> None \<or>
      timestamp_check D now c prev \<noteq> None \<or> version_check c prev \<noteq> None \<or>
      uniqueness_check L c \<noteq> None \<or> existing_tokens_check L c prev \<noteq> None \<or>
      chain_ids_check c \<noteq> None"
    then have "first_failure (deterministic_checks L V D now c prev) \<noteq> None"
      unfolding all by blast
    then show "requests (validateTokenList L V D now H c prev) = []" by (rule a)
  next
    assume h: "schema_check V c = None \<and> fixed_fields_check c = None \<and>
      timestamp_check D now c prev = None \<and> version_check c prev = None \<and>
      uniqueness_check L c = None \<and> existing_tokens_check L c prev = None \<and>
      chain_ids_check c = None \<and> tokens c \<noteq> []"
    then have n: "first_failure (deterministic_checks L V D now c prev) = None"
      unfolding all by blast
    from h have ne: "tokens c \<noteq> []" by blast
    from b [OF n ne]
    show "requests (validateTokenList L V D now H c prev) \<noteq> []"
      and "hd (requests (validateTokenList L V D now H c prev)) = logoURI (hd (tokens c))"
      by blast+
  qed
qed

theorem logo_requests_run_last_witness:
  "version_check feb18 (Some feb18) \<noteq> None \<and>
   requests (validateTokenList example_toLowerCase any_schema example_Date 1708257600000 all_reachable
               feb18 (Some feb18)) = []"
proof -
  have v: "version_check feb18 (Some feb18) \<noteq> None"
    by (simp add: version_check_def)
  with logo_requests_run_last
         [where V = any_schema and c = feb18 and D = example_Date and
            now = 1708257600000 and prev = "Some feb18" and L = example_toLowerCase and
            H = all_reachable]
  show ?thesis by blast
qed

text \<open>
  Claim C9. When the candidate's timestamp is not a valid date, both comparisons of the
  timestamp stage are false, so the stage passes at every evaluation time and against every
  previous document.
\<close>

theorem invalid_timestamp_passes:
  "Date (timestamp c) = None \<Longrightarrow> timestamp_check Date now c prev = None"
  by (cases prev) (simp_all add: timestamp_check_def future_check_def regression_check_def)

theorem invalid_timestamp_passes_witness:
  "example_Date (timestamp undated) = None \<and>
   timestamp_check example_Date 0 undated (Some feb18) = None"
proof -
  have n: "example_Date (timestamp undated) = None"
    by (simp add: undated_def list_at_def example_Date_def)
  from n invalid_timestamp_passes [of example_Date undated 0 "Some feb18"]
  show ?thesis by blast
qed

text \<open>
  A record that only re-cases the address of a previous record is looked up under the same
  key as that record, and the \<^verbatim>\<open>Map\<close> answers with the last previous record with
  the key. When the previous document lists a second record under that key, the re-cased
  copy of the first is compared with the second and reported as modified.
\<close>

theorem address_case_change_counterexample:
  "existing_tokens_check example_toLowerCase
     (list_at 1 0 1 [] [foo_token\<lparr>address := ''0xaAa''\<rparr>])
     (Some (list_at 1 0 0 [] [foo_token, bar_token])) =
     Some (TokenModified ''FOO'' ''0xaAa'')"
  by (simp add: check_defs example_defs)

text \<open>
  Claim C10, as the source has it. Changing only the letter case of candidate addresses
  never changes whether the check of existing tokens passes: the lookup key lower-cases the
  address, and the address is not among the fields compared. When every candidate record is
  a previous record whose address changed at most in letter case (every other field as it
  was), and that previous record is the last of the previous document with its identity
  key, the check passes; this is the case for every previous record when the identity keys
  of the previous document are distinct.
\<close>

theorem address_case_change_passes:
  "((\<forall>t\<in>set (tokens c). L (recase t) = L (address t)) \<longrightarrow>
      (existing_tokens_check L (c\<lparr>tokens := map (\<lambda>t. t\<lparr>address := recase t\<rparr>) (tokens c)\<rparr>)
         (Some p) = None \<longleftrightarrow>
       existing_tokens_check L c (Some p) = None)) \<and>
   ((\<forall>t\<in>set (tokens c). \<exists>q a.
       List.find (\<lambda>q'. identity_key L q' = identity_key L q) (rev (tokens p)) = Some q \<and>
       L a = L (address q) \<and> t = q\<lparr>address := a\<rparr>) \<longrightarrow>
      existing_tokens_check L c (Some p) = None) \<and>
   (distinct (map (identity_key L) (tokens p)) \<and>
    (\<forall>t\<in>set (tokens c). \<exists>q\<in>set (tokens p). \<exists>a.
       L a = L (address q) \<and> t = q\<lparr>address := a\<rparr>) \<longrightarrow>
      existing_tokens_check L c (Some p) = None)"
proof (intro conjI impI)
  assume h: "\<forall>t\<in>set (tokens c). \<exists>q a.
       List.find (\<lambda>q'. identity_key L q' = identity_key L q) (rev (tokens p)) = Some q \<and>
       L a = L (address q) \<and> t = q\<lparr>address := a\<rparr>"
  show "existing_tokens_check L c (Some p) = None"
  proof (rule ccontr)
    assume "existing_tokens_check L c (Some p) \<noteq> None"
    then obtain t q' where t: "t \<in> set (tokens c)"
      and f: "List.find (\<lambda>q. identity_key L q = identity_key L t) (rev (tokens p)) = Some q'"
      and m: "modified t q'"
      unfolding existing_tokens_check_fails_iff by blast
    from h t obtain q a
      where fq: "List.find (\<lambda>q'. identity_key L q' = identity_key L q) (rev (tokens p)) = Some q"
      and a: "L a = L (address q)" and ta: "t = q\<lparr>address := a\<rparr>"
      by blast
    from a ta have "identity_key L t = identity_key L q" by (simp add: identity_key_def)
    with f fq have "q' = q" by simp
    with m ta show False by (simp add: modified_def)
  qed
next
  assume "\<forall>t\<in>set (tokens c). L (recase t) = L (address t)"
  then show "existing_tokens_check L
       (c\<lparr>tokens := map (\<lambda>t. t\<lparr>address := recase t\<rparr>) (tokens c)\<rparr>) (Some p) = None \<longleftrightarrow>
     existing_tokens_check L c (Some p) = None"
    by (rule existing_tokens_check_recase)
next
  assume dh: "distinct (map (identity_key L) (tokens p)) \<and>
    (\<forall>t\<in>set (tokens c). \<exists>q\<in>set (tokens p). \<exists>a.
       L a = L (address q) \<and> t = q\<lparr>address := a\<rparr>)"
  then have d: "distinct (map (identity_key L) (tokens p))" by blast
  show "existing_tokens_check L c (Some p) = None"
  proof (rule ccontr)
    assume "existing_tokens_check L c (Some p) \<noteq> None"
    then obtain t q' where t: "t \<in> set (tokens c)" and q': "q' \<in> set (tokens p)"
      and e: "identity_key L q' = identity_key L t" and m: "modified t q'"
      unfolding existing_tokens_check_distinct [OF d] by blast
    from dh t obtain q a where q: "q \<in> set (tokens p)"
      and a: "L a = L (address q)" and ta: "t = q\<lparr>address := a\<rparr>"
      by blast
    from a ta have "identity_key L t = identity_key L q" by (simp add: identity_key_def)
    with e have "identity_key L q' = identity_key L q" by simp
    moreover from d have "inj_on (identity_key L) (set (tokens p))" by (simp add: distinct_map)
    ultimately have "q' = q" using q q' by (auto dest: inj_onD)
    with m ta show False by (simp add: modified_def)
  qed
qed

theorem address_case_change_passes_witness:
  "distinct (map (identity_key example_toLowerCase) (tokens (list_at 1 0 0 [] [foo_token]))) \<and>
   example_toLowerCase ''0xaaa'' = example_toLowerCase (address foo_token) \<and>
   ''0xaaa'' \<noteq> address foo_token \<and>
   existing_tokens_check example_toLowerCase (list_at 1 0 1 [] [foo_token\<lparr>address := ''0xaaa''\<rparr>])
     (Some (list_at 1 0 0 [] [foo_token])) = None"
proof -
  let ?p = "list_at 1 0 0 [] [foo_token]"
  let ?c = "list_at 1 0 1 [] [foo_token\<lparr>address := ''0xaaa''\<rparr>]"
  have d: "distinct (map (identity_key example_toLowerCase) (tokens ?p))" by (simp add: list_at_def)
  have l: "example_toLowerCase ''0xaaa'' = example_toLowerCase (address foo_token)"
    by (simp add: foo_token_def example_toLowerCase_def example_lower_char_def upper_letters_def
                  lower_letters_def)
  have n: "''0xaaa'' \<noteq> address foo_token" by (simp add: foo_token_def)
  have "\<forall>t\<in>set (tokens ?c). \<exists>q\<in>set (tokens ?p). \<exists>a.
      example_toLowerCase a = example_toLowerCase (address q) \<and> t = q\<lparr>address := a\<rparr>"
    using l by (auto simp: list_at_def)
  with d address_case_change_passes [where L = example_toLowerCase and c = "?c" and p = "?p"]
  have "existing_tokens_check example_toLowerCase ?c (Some ?p) = None" by blast
  with d l n show ?thesis by blast
qed

end
